theory Spec2Isabelle
  imports Complex_Main "HOL-Library.Word"
begin

section \<open>JavaScript values used by the mutex\<close>

text \<open>
  A JavaScript \<^verbatim>\<open>number\<close> is a finite value, \<^verbatim>\<open>NaN\<close> or one of the two infinities.
  Finite values are taken as reals: every double is one, and the validators below only
  ask whether the value is an integer and how it compares with integer bounds.
\<close>

datatype number = Finite real | NaN | PosInfinity | NegInfinity

definition MAX_SAFE_INTEGER :: int where
  "MAX_SAFE_INTEGER = 2 ^ 53 - 1"

text \<open>\<^verbatim>\<open>Number.isSafeInteger\<close>: a finite integer of magnitude at most \<open>2^53 - 1\<close>.\<close>

fun isSafeInteger :: "number \<Rightarrow> bool" where
  "isSafeInteger (Finite r) = (real_of_int \<lfloor>r\<rfloor> = r \<and> \<bar>r\<bar> \<le> real_of_int MAX_SAFE_INTEGER)"
| "isSafeInteger NaN = False"
| "isSafeInteger PosInfinity = False"
| "isSafeInteger NegInfinity = False"

text \<open>The relational operators \<^verbatim>\<open><\<close> and \<^verbatim>\<open><=\<close> on numbers; every comparison with \<^verbatim>\<open>NaN\<close> is false.\<close>

fun js_lt :: "number \<Rightarrow> number \<Rightarrow> bool" where
  "js_lt (Finite x) (Finite y) = (x < y)"
| "js_lt (Finite x) PosInfinity = True"
| "js_lt NegInfinity (Finite y) = True"
| "js_lt NegInfinity PosInfinity = True"
| "js_lt _ _ = False"

fun js_le :: "number \<Rightarrow> number \<Rightarrow> bool" where
  "js_le (Finite x) (Finite y) = (x \<le> y)"
| "js_le (Finite x) PosInfinity = True"
| "js_le NegInfinity (Finite y) = True"
| "js_le NegInfinity NegInfinity = True"
| "js_le NegInfinity PosInfinity = True"
| "js_le PosInfinity PosInfinity = True"
| "js_le _ _ = False"

definition js_gt :: "number \<Rightarrow> number \<Rightarrow> bool" where
  "js_gt a b = js_lt b a"

definition js_ge :: "number \<Rightarrow> number \<Rightarrow> bool" where
  "js_ge a b = js_le b a"

text \<open>
  The integer a number stands for. The code only computes with a number after
  \<^verbatim>\<open>Number.isSafeInteger\<close> has accepted it, where this is the number itself.
\<close>

fun toInteger :: "number \<Rightarrow> int" where
  "toInteger (Finite r) = \<lfloor>r\<rfloor>"
| "toInteger _ = 0"

definition Num :: "int \<Rightarrow> number" where
  "Num n = Finite (real_of_int n)"

text \<open>The message codes carried by \<^verbatim>\<open>WorkerMutexError\<close>.\<close>

datatype WorkerMutexError =
    COUNT_MUST_BE_A_POSITIVE_SAFE_INTEGER
  | COUNT_EXCEEDS_MAX_SUPPORTED_VALUE
  | VALUE_MUST_BE_AN_UNSIGNED_INTEGER
  | HANDLE_MUST_BE_A_SHARED_ARRAY_BUFFER
  | HANDLE_BYTE_LENGTH_IS_NOT_INT32_ALIGNED
  | MUTEX_INDEX_OUT_OF_RANGE
  | MUTEX_IS_NOT_OWNED_BY_CURRENT_THREAD
  | MUTEX_RECURSION_COUNT_UNDERFLOW
  | MUTEX_RECURSION_COUNT_OVERFLOW

text \<open>
  What may be passed as \<^verbatim>\<open>options.handle\<close>: a \<^verbatim>\<open>SharedArrayBuffer\<close> with its bytes, or
  a value for which \<^verbatim>\<open>instanceof SharedArrayBuffer\<close> is false (an \<^verbatim>\<open>ArrayBuffer\<close> in the
  repository's test).
\<close>

datatype buffer = SharedArrayBuffer "8 word list" | ArrayBuffer "8 word list"

fun byteLength :: "buffer \<Rightarrow> nat" where
  "byteLength (SharedArrayBuffer bs) = length bs"
| "byteLength (ArrayBuffer bs) = length bs"

text \<open>
  \<^verbatim>\<open>new SharedArrayBuffer(n)\<close>: \<open>n\<close> bytes, all zero. The allocator of the runtime is
  taken as total; a refusal of the runtime to allocate is outside the repository's code.
\<close>

definition new_SharedArrayBuffer :: "int \<Rightarrow> buffer" where
  "new_SharedArrayBuffer n = SharedArrayBuffer (replicate (nat n) 0)"

text \<open>
  \<^verbatim>\<open>new Int32Array(buffer)\<close>: the bytes read four at a time as 32-bit cells, in the
  byte order of the platform (least significant byte first). The constructor of the
  mutex builds the view only after it has checked that the length is a multiple of four.
\<close>

fun Int32Array :: "8 word list \<Rightarrow> 32 word list" where
  "Int32Array (b0 # b1 # b2 # b3 # bs) = word_rcat [b3, b2, b1, b0] # Int32Array bs"
| "Int32Array _ = []"

section \<open>The three-cell mutex: constants, allocation and construction\<close>

text \<open>
  The class of \<^verbatim>\<open>src/unnamed/part_004\<close>: three 32-bit cells per mutex, the lock flag,
  the owner and the recursion count.
\<close>

definition STRIDE :: int where "STRIDE = 3"
definition LOCK_OFFSET :: nat where "LOCK_OFFSET = 0"
definition OWNER_OFFSET :: nat where "OWNER_OFFSET = 1"
definition COUNT_OFFSET :: nat where "COUNT_OFFSET = 2"
definition MAX_RECURSION_COUNT :: int where "MAX_RECURSION_COUNT = 2147483647"
definition BYTES_PER_ELEMENT :: int where "BYTES_PER_ELEMENT = 4"
definition BYTES_PER_MUTEX :: int where "BYTES_PER_MUTEX = BYTES_PER_ELEMENT * STRIDE"
definition MAX_MUTEX_COUNT :: int where
  "MAX_MUTEX_COUNT = \<lfloor>real_of_int MAX_SAFE_INTEGER / real_of_int BYTES_PER_MUTEX\<rfloor>"

text \<open>\<^verbatim>\<open>createSharedBuffer(count = 1)\<close>; \<open>None\<close> is the omitted argument.\<close>

definition createSharedBuffer :: "number option \<Rightarrow> WorkerMutexError + buffer" where
  "createSharedBuffer arg =
     (let count = (case arg of None \<Rightarrow> Num 1 | Some c \<Rightarrow> c) in
      if \<not> isSafeInteger count \<or> js_le count (Num 0)
      then Inl COUNT_MUST_BE_A_POSITIVE_SAFE_INTEGER
      else if js_gt count (Num MAX_MUTEX_COUNT)
      then Inl COUNT_EXCEEDS_MAX_SUPPORTED_VALUE
      else Inr (new_SharedArrayBuffer (BYTES_PER_MUTEX * toInteger count)))"

text \<open>\<^verbatim>\<open>utils.assertUnsignedInteger\<close> (the last part of \<^verbatim>\<open>src/unnamed/part_002\<close>).\<close>

definition assertUnsignedInteger :: "number \<Rightarrow> WorkerMutexError + unit" where
  "assertUnsignedInteger v =
     (if \<not> isSafeInteger v \<or> js_lt v (Num 0)
      then Inl VALUE_MUST_BE_AN_UNSIGNED_INTEGER else Inr ())"

record WorkerMutexOptions =
  handle :: buffer
  index :: "number option"

text \<open>
  The object the constructor builds: the view \<^verbatim>\<open>i32\<close> over the shared buffer and the
  index \<^verbatim>\<open>base\<close> of the first cell of its mutex.
\<close>

record WorkerMutex =
  i32 :: "32 word list"
  base :: nat

definition WorkerMutex_constructor :: "WorkerMutexOptions \<Rightarrow> WorkerMutexError + WorkerMutex" where
  "WorkerMutex_constructor options =
     (let h = handle options;
          idx = (case index options of None \<Rightarrow> Num 0 | Some i \<Rightarrow> i)
      in case assertUnsignedInteger idx of
           Inl e \<Rightarrow> Inl e
         | Inr _ \<Rightarrow>
            (case h of
               ArrayBuffer _ \<Rightarrow> Inl HANDLE_MUST_BE_A_SHARED_ARRAY_BUFFER
             | SharedArrayBuffer bs \<Rightarrow>
                 if int (length bs) mod BYTES_PER_ELEMENT \<noteq> 0
                 then Inl HANDLE_BYTE_LENGTH_IS_NOT_INT32_ALIGNED
                 else
                   (let view = Int32Array bs;
                        b = toInteger idx * STRIDE
                    in if js_lt idx (Num 0) \<or> b + (STRIDE - 1) \<ge> int (length view)
                       then Inl MUTEX_INDEX_OUT_OF_RANGE
                       else Inr \<lparr>i32 = view, base = nat b\<rparr>)))"

definition lockIndex :: "nat \<Rightarrow> nat" where
  "lockIndex b = b + LOCK_OFFSET"

definition ownerIndex :: "nat \<Rightarrow> nat" where
  "ownerIndex b = b + OWNER_OFFSET"

definition countIndex :: "nat \<Rightarrow> nat" where
  "countIndex b = b + COUNT_OFFSET"

section \<open>Shared memory and the atomic operations\<close>

text \<open>
  The state a call works on: the cells of the \<^verbatim>\<open>Int32Array\<close> over the shared buffer, a
  log of what the calls did to the outside (each value handed to a cell, each wake-up
  sent to waiters, each process warning), and the static field
  \<^verbatim>\<open>mainThreadWarningShown\<close>.

  A call is run from its first statement to its return, throw or suspension with no
  other thread acting in between. Steps of calls that overlap in time are not
  interleaved.
\<close>

datatype event = Write nat int | Notify nat int | EmitWarning

record world =
  memory :: "32 word list"
  events :: "event list"
  mainThreadWarningShown :: bool

text \<open>
  How a call ends: it returns (a promise resolves), it throws (a promise rejects), or it
  has not completed: the thread sleeps in \<^verbatim>\<open>Atomics.wait\<close>, or the promise is still pending.
\<close>

datatype completion = Return | Throw WorkerMutexError | Waiting

definition Atomics_load :: "world \<Rightarrow> nat \<Rightarrow> int" where
  "Atomics_load w i = sint (memory w ! i)"

text \<open>A value stored into a cell is reduced to 32 bits.\<close>

definition Atomics_store :: "world \<Rightarrow> nat \<Rightarrow> int \<Rightarrow> world" where
  "Atomics_store w i v =
     w\<lparr>memory := (memory w)[i := word_of_int v], events := events w @ [Write i v]\<rparr>"

definition Atomics_compareExchange :: "world \<Rightarrow> nat \<Rightarrow> int \<Rightarrow> int \<Rightarrow> int \<times> world" where
  "Atomics_compareExchange w i expected replacement =
     (sint (memory w ! i),
      if memory w ! i = word_of_int expected then Atomics_store w i replacement else w)"

definition Atomics_notify :: "world \<Rightarrow> nat \<Rightarrow> int \<Rightarrow> world" where
  "Atomics_notify w i n = w\<lparr>events := events w @ [Notify i n]\<rparr>"

text \<open>
  \<^verbatim>\<open>Atomics.wait(a, i, v)\<close> comes back at once with \<^verbatim>\<open>"not-equal"\<close> when the cell differs
  from \<open>v\<close>; otherwise the thread sleeps until another thread notifies the cell.
  \<^verbatim>\<open>Atomics.waitAsync\<close> answers the same question with a promise in place of the sleep.
\<close>

datatype wait_result = NotEqual | Suspended

definition Atomics_wait :: "world \<Rightarrow> nat \<Rightarrow> int \<Rightarrow> wait_result" where
  "Atomics_wait w i v = (if memory w ! i = word_of_int v then Suspended else NotEqual)"

datatype waitAsync_result = AsyncPromise | SyncNotEqual

definition Atomics_waitAsync :: "world \<Rightarrow> nat \<Rightarrow> int \<Rightarrow> waitAsync_result" where
  "Atomics_waitAsync w i v =
     (if memory w ! i = word_of_int v then AsyncPromise else SyncNotEqual)"

definition process_emitWarning :: "world \<Rightarrow> world" where
  "process_emitWarning w = w\<lparr>events := events w @ [EmitWarning]\<rparr>"

text \<open>The world a thread finds right after the buffer has been viewed: nothing logged yet.\<close>

definition fresh :: "32 word list \<Rightarrow> world" where
  "fresh cells = \<lparr>memory = cells, events = [], mainThreadWarningShown = False\<rparr>"

section \<open>The three-cell mutex: lock, lockAsync and unlock\<close>

text \<open>
  \<^verbatim>\<open>src/unnamed/part_004\<close>. \<open>threadId\<close> is the \<^verbatim>\<open>threadId\<close> of \<^verbatim>\<open>worker_threads\<close>, \<open>0\<close>
  on the main thread.
\<close>

definition selfId :: "nat \<Rightarrow> int" where
  "selfId threadId = int threadId"

text \<open>
  The retry of a compare-and-swap loop is kept as the source has it. With no other
  thread acting during the call the exchange sees the value just loaded, which is what
  the termination proofs use: the retry is never taken.
\<close>

function incrementRecursionCount :: "nat \<Rightarrow> world \<Rightarrow> completion \<times> world" where
  "incrementRecursionCount ci w =
     (let count = Atomics_load w ci in
      if count \<le> 0 then (Throw MUTEX_RECURSION_COUNT_UNDERFLOW, w)
      else if count \<ge> MAX_RECURSION_COUNT then (Throw MUTEX_RECURSION_COUNT_OVERFLOW, w)
      else (case Atomics_compareExchange w ci count (count + 1) of
              (old, w') \<Rightarrow>
                if old = count then (Return, w') else incrementRecursionCount ci w'))"
  by pat_completeness auto
termination
  by (relation "{}") (auto simp: Atomics_compareExchange_def Atomics_load_def)

function lock_loop :: "int \<Rightarrow> nat \<Rightarrow> nat \<Rightarrow> nat \<Rightarrow> world \<Rightarrow> completion \<times> world" where
  "lock_loop me fi oi ci w =
     (let lock = Atomics_load w fi;
          owner = Atomics_load w oi
      in if lock = 1 \<and> owner = me then incrementRecursionCount ci w
         else if lock = 0 then
           (case Atomics_compareExchange w fi 0 1 of
              (old, w') \<Rightarrow>
                if old = 0
                then (Return, Atomics_store (Atomics_store w' oi me) ci 1)
                else lock_loop me fi oi ci w')
         else
           (case Atomics_wait w fi lock of
              Suspended \<Rightarrow> (Waiting, w)
            | NotEqual \<Rightarrow> lock_loop me fi oi ci w))"
  by pat_completeness auto
termination
  by (relation "{}")
     (auto simp: Atomics_compareExchange_def Atomics_load_def Atomics_wait_def split: if_splits)

text \<open>The loops are unfolded by hand, one round at a time.\<close>

declare incrementRecursionCount.simps [simp del]
declare lock_loop.simps [simp del]

text \<open>The first statement of \<^verbatim>\<open>lock\<close>: the warning given once on the main thread.\<close>

definition warnOnMainThread :: "nat \<Rightarrow> world \<Rightarrow> world" where
  "warnOnMainThread threadId w =
     (if threadId = 0 \<and> \<not> mainThreadWarningShown w
      then process_emitWarning (w\<lparr>mainThreadWarningShown := True\<rparr>)
      else w)"

definition lock :: "nat \<Rightarrow> nat \<Rightarrow> world \<Rightarrow> completion \<times> world" where
  "lock threadId b w =
     (let fi = lockIndex b;
          oi = ownerIndex b;
          ci = countIndex b;
          me = selfId threadId;
          w1 = warnOnMainThread threadId w
      in lock_loop me fi oi ci w1)"

text \<open>
  \<^verbatim>\<open>lockAsync\<close> gives the thread back at every \<^verbatim>\<open>await\<close>. The first argument of its loops
  is how many of its sleeps (\<^verbatim>\<open>await WorkerMutex.sleep(delay)\<close>) have run out by the time
  the promise is looked at; a promise from \<^verbatim>\<open>Atomics.waitAsync\<close> settles only on a
  notification, which no call sends while this one runs. The timers themselves
  (\<^verbatim>\<open>sleep\<close>, and the keep-alive timer of \<^verbatim>\<open>awaitWaitAsync\<close>) touch no cell and are
  not part of the state.
\<close>

definition next_delay :: "int \<Rightarrow> int" where
  "next_delay delay = (if delay < 8 then delay + 1 else delay)"

fun lockAsync_waitAsync_loop ::
  "nat \<Rightarrow> int \<Rightarrow> nat \<Rightarrow> nat \<Rightarrow> nat \<Rightarrow> int \<Rightarrow> world \<Rightarrow> completion \<times> world" where
  "lockAsync_waitAsync_loop n me fi oi ci delay w =
     (let lock = Atomics_load w fi;
          owner = Atomics_load w oi
      in if lock = 1 \<and> owner = me then incrementRecursionCount ci w
         else if lock = 0 then
           (case Atomics_compareExchange w fi 0 1 of
              (old, w') \<Rightarrow>
                if old = 0
                then (Return, Atomics_store (Atomics_store w' oi me) ci 1)
                else (case n of
                        0 \<Rightarrow> (Waiting, w')
                      | Suc k \<Rightarrow>
                          lockAsync_waitAsync_loop k me fi oi ci (next_delay delay) w'))
         else
           (case Atomics_waitAsync w fi lock of
              AsyncPromise \<Rightarrow> (Waiting, w)
            | SyncNotEqual \<Rightarrow>
                (case n of
                   0 \<Rightarrow> (Waiting, w)
                 | Suc k \<Rightarrow> lockAsync_waitAsync_loop k me fi oi ci (next_delay delay) w)))"

fun lockAsync_polling_loop ::
  "nat \<Rightarrow> int \<Rightarrow> nat \<Rightarrow> nat \<Rightarrow> nat \<Rightarrow> int \<Rightarrow> world \<Rightarrow> completion \<times> world" where
  "lockAsync_polling_loop n me fi oi ci delay w =
     (let lock = Atomics_load w fi;
          owner = Atomics_load w oi
      in if lock = 1 \<and> owner = me then incrementRecursionCount ci w
         else if lock = 0 then
           (case Atomics_compareExchange w fi 0 1 of
              (old, w') \<Rightarrow>
                if old = 0
                then (Return, Atomics_store (Atomics_store w' oi me) ci 1)
                else (case n of
                        0 \<Rightarrow> (Waiting, w')
                      | Suc k \<Rightarrow>
                          lockAsync_polling_loop k me fi oi ci (next_delay delay) w'))
         else
           (case n of
              0 \<Rightarrow> (Waiting, w)
            | Suc k \<Rightarrow> lockAsync_polling_loop k me fi oi ci (next_delay delay) w))"

declare lockAsync_waitAsync_loop.simps [simp del]
declare lockAsync_polling_loop.simps [simp del]

text \<open>\<open>hasWaitAsync\<close>: whether \<^verbatim>\<open>typeof Atomics.waitAsync === 'function'\<close>.\<close>

definition lockAsync :: "bool \<Rightarrow> nat \<Rightarrow> nat \<Rightarrow> nat \<Rightarrow> world \<Rightarrow> completion \<times> world" where
  "lockAsync hasWaitAsync n threadId b w =
     (let fi = lockIndex b;
          oi = ownerIndex b;
          ci = countIndex b;
          me = selfId threadId;
          delay = 0
      in if hasWaitAsync
         then lockAsync_waitAsync_loop n me fi oi ci delay w
         else lockAsync_polling_loop n me fi oi ci 0 w)"

function unlock_loop :: "nat \<Rightarrow> nat \<Rightarrow> nat \<Rightarrow> world \<Rightarrow> completion \<times> world" where
  "unlock_loop fi oi ci w =
     (let count = Atomics_load w ci in
      if count \<le> 0 then (Throw MUTEX_RECURSION_COUNT_UNDERFLOW, w)
      else
        (let nextCount = count - 1 in
         case Atomics_compareExchange w ci count nextCount of
           (old, w') \<Rightarrow>
             if old \<noteq> count then unlock_loop fi oi ci w'
             else if nextCount > 0 then (Return, w')
             else (Return,
                   Atomics_notify
                     (Atomics_store (Atomics_store (Atomics_store w' ci 0) oi 0) fi 0) fi 1)))"
  by pat_completeness auto
termination
  by (relation "{}") (auto simp: Atomics_compareExchange_def Atomics_load_def)

declare unlock_loop.simps [simp del]

definition unlock :: "nat \<Rightarrow> nat \<Rightarrow> world \<Rightarrow> completion \<times> world" where
  "unlock threadId b w =
     (let fi = lockIndex b;
          oi = ownerIndex b;
          ci = countIndex b;
          me = selfId threadId;
          lock = Atomics_load w fi;
          owner = Atomics_load w oi
      in if lock \<noteq> 1 \<or> owner \<noteq> me
         then (Throw MUTEX_IS_NOT_OWNED_BY_CURRENT_THREAD, w)
         else unlock_loop fi oi ci w)"

section \<open>Sequences of calls\<close>

text \<open>
  A caller that makes the same call \<open>n\<close> times in a row: a call that throws or does not
  complete ends the sequence, as the exception or the sleeping thread would.
\<close>

primrec repeat_call ::
  "nat \<Rightarrow> (world \<Rightarrow> completion \<times> world) \<Rightarrow> world \<Rightarrow> completion \<times> world" where
  "repeat_call 0 f w = (Return, w)"
| "repeat_call (Suc n) f w =
     (case repeat_call n f w of
        (c, w') \<Rightarrow> (case c of Return \<Rightarrow> f w' | Throw e \<Rightarrow> (c, w') | Waiting \<Rightarrow> (c, w')))"

text \<open>
  Calls of many threads on one mutex, one after the other. Beside the shared world the
  run keeps, for every thread, how many acquisitions have returned to it that it has not
  yet released: a thread holds the mutex while this number is positive. A call that
  throws or does not complete changes no such number; a thread whose call did not
  complete may make it again later in the schedule, as the woken thread does.
\<close>

datatype call = Lock | LockAsync bool nat | Unlock

definition perform ::
  "nat \<Rightarrow> world \<times> (nat \<Rightarrow> nat) \<Rightarrow> nat \<times> call \<Rightarrow> world \<times> (nat \<Rightarrow> nat)" where
  "perform b s tc =
     (case s of (w, held) \<Rightarrow>
      case tc of (t, c) \<Rightarrow>
        (case c of
           Lock \<Rightarrow>
             (case lock t b w of
                (r, w') \<Rightarrow> (w', if r = Return then held(t := held t + 1) else held))
         | LockAsync hasWaitAsync n \<Rightarrow>
             (case lockAsync hasWaitAsync n t b w of
                (r, w') \<Rightarrow> (w', if r = Return then held(t := held t + 1) else held))
         | Unlock \<Rightarrow>
             (case unlock t b w of
                (r, w') \<Rightarrow> (w', if r = Return then held(t := held t - 1) else held))))"

definition run :: "nat \<Rightarrow> (nat \<times> call) list \<Rightarrow> world \<Rightarrow> world \<times> (nat \<Rightarrow> nat)" where
  "run b schedule w = foldl (perform b) (w, \<lambda>t. 0) schedule"

text \<open>The three cells of the mutex at \<open>b\<close>, as a thread reads them.\<close>

definition flag_of :: "nat \<Rightarrow> world \<Rightarrow> int" where
  "flag_of b w = Atomics_load w (lockIndex b)"

definition owner_of :: "nat \<Rightarrow> world \<Rightarrow> int" where
  "owner_of b w = Atomics_load w (ownerIndex b)"

definition recursionCount_of :: "nat \<Rightarrow> world \<Rightarrow> int" where
  "recursionCount_of b w = Atomics_load w (countIndex b)"

text \<open>The three cells together: flag, owner, recursion count.\<close>

definition slot :: "nat \<Rightarrow> world \<Rightarrow> int \<times> int \<times> int" where
  "slot b w = (flag_of b w, owner_of b w, recursionCount_of b w)"

text \<open>
  What every state of a run looks like, as the lemmas on \<open>run\<close> show: the mutex is
  either unlocked, with all three cells \<open>0\<close> and no thread holding it, or locked by one
  thread \<open>u\<close> that holds it \<open>c\<close> times, with \<open>c\<close> in the recursion count.
\<close>

definition consistent :: "nat \<Rightarrow> world \<times> (nat \<Rightarrow> nat) \<Rightarrow> bool" where
  "consistent b s =
     (case s of (w, held) \<Rightarrow>
        b + 2 < length (memory w) \<and>
        ((slot b w = (0, 0, 0) \<and> held = (\<lambda>t. 0)) \<or>
         (\<exists>u c. u < 2 ^ 31 \<and> 0 < c \<and> c \<le> MAX_RECURSION_COUNT \<and>
                slot b w = (1, int u, c) \<and> held = (\<lambda>t. 0)(u := nat c))))"

text \<open>The three stores of a first acquisition by the thread identified by \<open>me\<close>.\<close>

definition acquire :: "int \<Rightarrow> nat \<Rightarrow> world \<Rightarrow> world" where
  "acquire me b w =
     Atomics_store (Atomics_store (Atomics_store w (lockIndex b) 1) (ownerIndex b) me)
       (countIndex b) 1"

section \<open>The two-cell mutex\<close>

text \<open>
  The class of \<^verbatim>\<open>src/src/WorkerMutex.ts\<close> keeps two cells per mutex, the owner and the
  recursion count, and identifies a thread by \<^verbatim>\<open>(threadId | 0) + 1\<close>; the same \<^verbatim>\<open>selfId\<close>
  stands in \<^verbatim>\<open>src/unnamed/part_005\<close>. Its definitions carry the suffix \<open>2\<close>.
\<close>

unbundle bit_operations_syntax

definition STRIDE2 :: int where "STRIDE2 = 2"
definition OWNER_OFFSET2 :: nat where "OWNER_OFFSET2 = 0"
definition COUNT_OFFSET2 :: nat where "COUNT_OFFSET2 = 1"

definition ownerIndex2 :: "nat \<Rightarrow> nat" where
  "ownerIndex2 b = b + OWNER_OFFSET2"

definition countIndex2 :: "nat \<Rightarrow> nat" where
  "countIndex2 b = b + COUNT_OFFSET2"

text \<open>The operator \<^verbatim>\<open>|\<close>: both operands reduced to 32 bits, the result read as signed.\<close>

definition js_bitor :: "int \<Rightarrow> int \<Rightarrow> int" where
  "js_bitor x y = sint ((word_of_int x :: 32 word) OR word_of_int y)"

definition selfId2 :: "nat \<Rightarrow> int" where
  "selfId2 threadId = js_bitor (int threadId) 0 + 1"

text \<open>\<^verbatim>\<open>Atomics.add\<close> and \<^verbatim>\<open>Atomics.sub\<close> give back the old value; the cell wraps around.\<close>

definition Atomics_add :: "world \<Rightarrow> nat \<Rightarrow> int \<Rightarrow> int \<times> world" where
  "Atomics_add w i v =
     (sint (memory w ! i), Atomics_store w i (sint (memory w ! i + word_of_int v)))"

definition Atomics_sub :: "world \<Rightarrow> nat \<Rightarrow> int \<Rightarrow> int \<times> world" where
  "Atomics_sub w i v =
     (sint (memory w ! i), Atomics_store w i (sint (memory w ! i - word_of_int v)))"

function lock2_loop :: "int \<Rightarrow> nat \<Rightarrow> nat \<Rightarrow> world \<Rightarrow> completion \<times> world" where
  "lock2_loop me oi ci w =
     (let owner = Atomics_load w oi in
      if owner = me then (Return, snd (Atomics_add w ci 1))
      else if owner = 0 then
        (case Atomics_compareExchange w oi 0 me of
           (old, w') \<Rightarrow>
             if old = 0 then (Return, Atomics_store w' ci 1)
             else lock2_loop me oi ci w')
      else
        (case Atomics_wait w oi owner of
           Suspended \<Rightarrow> (Waiting, w)
         | NotEqual \<Rightarrow> lock2_loop me oi ci w))"
  by pat_completeness auto
termination
  by (relation "{}")
     (auto simp: Atomics_compareExchange_def Atomics_load_def Atomics_wait_def split: if_splits)

declare lock2_loop.simps [simp del]

definition lock2 :: "nat \<Rightarrow> nat \<Rightarrow> world \<Rightarrow> completion \<times> world" where
  "lock2 threadId b w =
     (let oi = ownerIndex2 b;
          ci = countIndex2 b;
          me = selfId2 threadId
      in lock2_loop me oi ci w)"

text \<open>
  \<^verbatim>\<open>owner === 0 && Atomics.compareExchange(a, oi, 0, me) === 0\<close> runs the exchange only
  when the owner read was \<open>0\<close>; it is written out at each of its three places. The first
  argument of the loops counts the awaits on a timer or on a resolved promise that have
  completed by the time the promise of \<^verbatim>\<open>lockAsync\<close> is looked at.
\<close>

fun lockAsync2_waitAsync_loop ::
  "nat \<Rightarrow> int \<Rightarrow> nat \<Rightarrow> nat \<Rightarrow> world \<Rightarrow> completion \<times> world" where
  "lockAsync2_waitAsync_loop n me oi ci w =
     (let owner = Atomics_load w oi in
      if owner = me then (Return, snd (Atomics_add w ci 1))
      else
        (case (if owner = 0
               then (case Atomics_compareExchange w oi 0 me of (old, w') \<Rightarrow> (old = 0, w'))
               else (False, w)) of
           (acquired, w1) \<Rightarrow>
             if acquired then (Return, Atomics_store w1 ci 1)
             else
               (case Atomics_waitAsync w1 oi owner of
                  AsyncPromise \<Rightarrow> (Waiting, w1)
                | SyncNotEqual \<Rightarrow>
                    (case n of
                       0 \<Rightarrow> (Waiting, w1)
                     | Suc k \<Rightarrow> lockAsync2_waitAsync_loop k me oi ci w1))))"

fun lockAsync2_polling_loop ::
  "nat \<Rightarrow> int \<Rightarrow> nat \<Rightarrow> nat \<Rightarrow> int \<Rightarrow> world \<Rightarrow> completion \<times> world" where
  "lockAsync2_polling_loop n me oi ci delay w =
     (let owner = Atomics_load w oi in
      if owner = me then (Return, snd (Atomics_add w ci 1))
      else
        (case (if owner = 0
               then (case Atomics_compareExchange w oi 0 me of (old, w') \<Rightarrow> (old = 0, w'))
               else (False, w)) of
           (acquired, w1) \<Rightarrow>
             if acquired then (Return, Atomics_store w1 ci 1)
             else
               (case n of
                  0 \<Rightarrow> (Waiting, w1)
                | Suc k \<Rightarrow> lockAsync2_polling_loop k me oi ci (next_delay delay) w1)))"

declare lockAsync2_waitAsync_loop.simps [simp del]
declare lockAsync2_polling_loop.simps [simp del]

definition lockAsync2 :: "bool \<Rightarrow> nat \<Rightarrow> nat \<Rightarrow> nat \<Rightarrow> world \<Rightarrow> completion \<times> world" where
  "lockAsync2 hasWaitAsync n threadId b w =
     (let oi = ownerIndex2 b;
          ci = countIndex2 b;
          me = selfId2 threadId;
          owner0 = Atomics_load w oi
      in if owner0 = me then (Return, snd (Atomics_add w ci 1))
         else
           (case (if owner0 = 0
                  then (case Atomics_compareExchange w oi 0 me of (old, w') \<Rightarrow> (old = 0, w'))
                  else (False, w)) of
              (acquired, w1) \<Rightarrow>
                if acquired then (Return, Atomics_store w1 ci 1)
                else if hasWaitAsync then lockAsync2_waitAsync_loop n me oi ci w1
                else lockAsync2_polling_loop n me oi ci 0 w1))"

definition unlock2 :: "nat \<Rightarrow> nat \<Rightarrow> world \<Rightarrow> completion \<times> world" where
  "unlock2 threadId b w =
     (let oi = ownerIndex2 b;
          ci = countIndex2 b;
          me = selfId2 threadId;
          owner = Atomics_load w oi
      in if owner \<noteq> me then (Throw MUTEX_IS_NOT_OWNED_BY_CURRENT_THREAD, w)
         else
           (case Atomics_sub w ci 1 of
              (prevCount, w1) \<Rightarrow>
                (let newCount = prevCount - 1 in
                 if newCount > 0 then (Return, w1)
                 else (Return,
                       Atomics_notify (Atomics_store (Atomics_store w1 ci 0) oi 0) oi 1))))"

section \<open>Cells as signed 32-bit integers\<close>

lemma sint_word_of_int_32:
  "- (2 ^ 31) \<le> v \<Longrightarrow> v < 2 ^ 31 \<Longrightarrow> sint (word_of_int v :: 32 word) = v"
  by (simp add: sint_sbintrunc' signed_take_bit_int_eq_self)

lemma sint_inject_32: "sint (x :: 32 word) = sint (y :: 32 word) \<longleftrightarrow> x = y"
proof
  assume "sint x = sint y"
  then have "(word_of_int (sint x) :: 32 word) = word_of_int (sint y)"
    by (rule arg_cong)
  then show "x = y" by simp
next
  assume "x = y"
  then show "sint x = sint y" by simp
qed

lemma sint_eq_0_iff: "sint (x :: 32 word) = 0 \<longleftrightarrow> x = 0"
  using sint_inject_32 [of x 0] by simp

lemma sint_eq_1_iff: "sint (x :: 32 word) = 1 \<longleftrightarrow> x = 1"
  using sint_inject_32 [of x 1] by simp

lemma sint_range_32: "- (2 ^ 31) \<le> sint (x :: 32 word) \<and> sint x < 2 ^ 31"
  using sint_ge [of x] sint_lt [of x] by simp

section \<open>One round of each loop\<close>

lemmas cell_defs = flag_of_def owner_of_def recursionCount_of_def
  lockIndex_def ownerIndex_def countIndex_def LOCK_OFFSET_def OWNER_OFFSET_def COUNT_OFFSET_def

lemma incrementRecursionCount_underflow:
  "Atomics_load w ci \<le> 0 \<Longrightarrow>
   incrementRecursionCount ci w = (Throw MUTEX_RECURSION_COUNT_UNDERFLOW, w)"
  by (subst incrementRecursionCount.simps) simp

lemma incrementRecursionCount_overflow:
  "0 < Atomics_load w ci \<Longrightarrow> MAX_RECURSION_COUNT \<le> Atomics_load w ci \<Longrightarrow>
   incrementRecursionCount ci w = (Throw MUTEX_RECURSION_COUNT_OVERFLOW, w)"
  by (subst incrementRecursionCount.simps) simp

lemma incrementRecursionCount_ok:
  "0 < Atomics_load w ci \<Longrightarrow> Atomics_load w ci < MAX_RECURSION_COUNT \<Longrightarrow>
   incrementRecursionCount ci w =
     (Return, Atomics_store w ci (Atomics_load w ci + 1))"
  by (subst incrementRecursionCount.simps)
     (simp add: Atomics_compareExchange_def Atomics_load_def)

lemma lock_loop_owner:
  "Atomics_load w fi = 1 \<Longrightarrow> Atomics_load w oi = me \<Longrightarrow>
   lock_loop me fi oi ci w = incrementRecursionCount ci w"
  by (subst lock_loop.simps) simp

lemma lock_loop_free:
  "Atomics_load w fi = 0 \<Longrightarrow>
   lock_loop me fi oi ci w =
     (Return, Atomics_store (Atomics_store (Atomics_store w fi 1) oi me) ci 1)"
  by (subst lock_loop.simps)
     (simp add: Atomics_compareExchange_def Atomics_load_def sint_eq_0_iff)

lemma lock_loop_contended:
  "Atomics_load w fi \<noteq> 0 \<Longrightarrow> \<not> (Atomics_load w fi = 1 \<and> Atomics_load w oi = me) \<Longrightarrow>
   lock_loop me fi oi ci w = (Waiting, w)"
  by (subst lock_loop.simps) (auto simp: Atomics_wait_def Atomics_load_def)

lemma unlock_loop_underflow:
  "Atomics_load w ci \<le> 0 \<Longrightarrow>
   unlock_loop fi oi ci w = (Throw MUTEX_RECURSION_COUNT_UNDERFLOW, w)"
  by (subst unlock_loop.simps) simp

lemma unlock_loop_shallower:
  "1 < Atomics_load w ci \<Longrightarrow>
   unlock_loop fi oi ci w = (Return, Atomics_store w ci (Atomics_load w ci - 1))"
  by (subst unlock_loop.simps)
     (simp add: Atomics_compareExchange_def Atomics_load_def Let_def)

lemma unlock_loop_release:
  "Atomics_load w ci = 1 \<Longrightarrow>
   unlock_loop fi oi ci w =
     (Return,
      Atomics_notify
        (Atomics_store (Atomics_store (Atomics_store (Atomics_store w ci 0) ci 0) oi 0) fi 0)
        fi 1)"
  by (subst unlock_loop.simps)
     (simp add: Atomics_compareExchange_def Atomics_load_def Let_def sint_eq_1_iff)

lemma load_store_same:
  "i < length (memory w) \<Longrightarrow> - (2 ^ 31) \<le> v \<Longrightarrow> v < 2 ^ 31 \<Longrightarrow>
   Atomics_load (Atomics_store w i v) i = v"
  by (simp add: Atomics_load_def Atomics_store_def sint_word_of_int_32)

lemma load_store_other:
  "i \<noteq> j \<Longrightarrow> Atomics_load (Atomics_store w i v) j = Atomics_load w j"
  by (simp add: Atomics_load_def Atomics_store_def)

lemma load_notify: "Atomics_load (Atomics_notify w i n) j = Atomics_load w j"
  by (simp add: Atomics_load_def Atomics_notify_def)

lemma length_store: "length (memory (Atomics_store w i v)) = length (memory w)"
  by (simp add: Atomics_store_def)

lemma load_range: "- (2 ^ 31) \<le> Atomics_load w i \<and> Atomics_load w i < 2 ^ 31"
  using sint_range_32 [of "memory w ! i"] by (simp add: Atomics_load_def)

lemma memory_warnOnMainThread [simp]: "memory (warnOnMainThread t w) = memory w"
  by (simp add: warnOnMainThread_def process_emitWarning_def)

lemma load_warnOnMainThread [simp]:
  "Atomics_load (warnOnMainThread t w) i = Atomics_load w i"
  by (simp add: Atomics_load_def)

section \<open>What a whole call does\<close>

text \<open>
  Each call in closed form: which of its paths is taken depends only on the three cells
  read at its start.
\<close>

lemma unlock_cases:
  "unlock t b w =
     (if flag_of b w \<noteq> 1 \<or> owner_of b w \<noteq> selfId t
      then (Throw MUTEX_IS_NOT_OWNED_BY_CURRENT_THREAD, w)
      else if recursionCount_of b w \<le> 0
      then (Throw MUTEX_RECURSION_COUNT_UNDERFLOW, w)
      else if 1 < recursionCount_of b w
      then (Return, Atomics_store w (countIndex b) (recursionCount_of b w - 1))
      else (Return,
            Atomics_notify
              (Atomics_store
                (Atomics_store
                  (Atomics_store (Atomics_store w (countIndex b) 0) (countIndex b) 0)
                  (ownerIndex b) 0)
                (lockIndex b) 0)
              (lockIndex b) 1))"
proof -
  have "recursionCount_of b w = 1" if "\<not> recursionCount_of b w \<le> 0" "\<not> 1 < recursionCount_of b w"
    using that by simp
  then show ?thesis
    by (auto simp: unlock_def Let_def flag_of_def owner_of_def recursionCount_of_def
        unlock_loop_underflow unlock_loop_shallower unlock_loop_release)
qed

lemma lock_cases:
  "lock t b w =
     (let w1 = warnOnMainThread t w in
      if flag_of b w = 1 \<and> owner_of b w = selfId t
      then (if recursionCount_of b w \<le> 0 then (Throw MUTEX_RECURSION_COUNT_UNDERFLOW, w1)
            else if MAX_RECURSION_COUNT \<le> recursionCount_of b w
            then (Throw MUTEX_RECURSION_COUNT_OVERFLOW, w1)
            else (Return, Atomics_store w1 (countIndex b) (recursionCount_of b w + 1)))
      else if flag_of b w = 0 then (Return, acquire (selfId t) b w1)
      else (Waiting, w1))"
  by (auto simp: lock_def Let_def flag_of_def owner_of_def recursionCount_of_def acquire_def
      lock_loop_owner lock_loop_free lock_loop_contended
      incrementRecursionCount_underflow incrementRecursionCount_overflow
      incrementRecursionCount_ok)

lemma lockAsync_waitAsync_loop_cases:
  "lockAsync_waitAsync_loop n me fi oi ci delay w =
     (if Atomics_load w fi = 1 \<and> Atomics_load w oi = me then incrementRecursionCount ci w
      else if Atomics_load w fi = 0
      then (Return, Atomics_store (Atomics_store (Atomics_store w fi 1) oi me) ci 1)
      else (Waiting, w))"
  by (subst lockAsync_waitAsync_loop.simps)
     (auto simp: Atomics_compareExchange_def Atomics_load_def Atomics_waitAsync_def
       sint_eq_0_iff)

lemma lockAsync_polling_loop_cases:
  "lockAsync_polling_loop n me fi oi ci delay w =
     (if Atomics_load w fi = 1 \<and> Atomics_load w oi = me then incrementRecursionCount ci w
      else if Atomics_load w fi = 0
      then (Return, Atomics_store (Atomics_store (Atomics_store w fi 1) oi me) ci 1)
      else (Waiting, w))"
proof (induction n arbitrary: delay)
  case 0
  show ?case
    by (subst lockAsync_polling_loop.simps)
       (auto simp: Atomics_compareExchange_def Atomics_load_def sint_eq_0_iff)
next
  case (Suc n)
  show ?case
    by (subst lockAsync_polling_loop.simps)
       (auto simp: Suc Atomics_compareExchange_def Atomics_load_def sint_eq_0_iff)
qed

lemma lockAsync_cases:
  "lockAsync hasWaitAsync n t b w =
     (if flag_of b w = 1 \<and> owner_of b w = selfId t
      then (if recursionCount_of b w \<le> 0 then (Throw MUTEX_RECURSION_COUNT_UNDERFLOW, w)
            else if MAX_RECURSION_COUNT \<le> recursionCount_of b w
            then (Throw MUTEX_RECURSION_COUNT_OVERFLOW, w)
            else (Return, Atomics_store w (countIndex b) (recursionCount_of b w + 1)))
      else if flag_of b w = 0 then (Return, acquire (selfId t) b w)
      else (Waiting, w))"
  by (auto simp: lockAsync_def Let_def flag_of_def owner_of_def recursionCount_of_def
      acquire_def lockAsync_waitAsync_loop_cases lockAsync_polling_loop_cases
      incrementRecursionCount_underflow incrementRecursionCount_overflow
      incrementRecursionCount_ok)

lemmas eval_cells = cell_defs Atomics_load_def fresh_def selfId_def

section \<open>Release\<close>

text \<open>
  Claim C6. Whenever the flag is not \<open>1\<close> or the owner is not the calling thread (a thread
  that does not own the mutex, or an unlocked slot), \<^verbatim>\<open>unlock()\<close> throws
  \<^verbatim>\<open>MUTEX_IS_NOT_OWNED_BY_CURRENT_THREAD\<close> and leaves the whole state as it was: the
  flag, the owner, the recursion count and every other cell, with nothing written and no
  waiter notified.
\<close>

theorem unlock_rejects_non_owner:
  "flag_of b w \<noteq> 1 \<or> owner_of b w \<noteq> selfId t \<Longrightarrow>
   unlock t b w = (Throw MUTEX_IS_NOT_OWNED_BY_CURRENT_THREAD, w)"
  by (simp add: unlock_cases)

theorem unlock_rejects_non_owner_witness:
  "unlock 0 0 (fresh [0, 0, 0]) = (Throw MUTEX_IS_NOT_OWNED_BY_CURRENT_THREAD, fresh [0, 0, 0]) \<and>
   unlock 2 0 (fresh [1, 1, 1]) = (Throw MUTEX_IS_NOT_OWNED_BY_CURRENT_THREAD, fresh [1, 1, 1])"
proof -
  have a: "flag_of 0 (fresh [0, 0, 0]) \<noteq> 1 \<or> owner_of 0 (fresh [0, 0, 0]) \<noteq> selfId 0"
    by (simp add: cell_defs Atomics_load_def fresh_def)
  have b: "flag_of 0 (fresh [1, 1, 1]) \<noteq> 1 \<or> owner_of 0 (fresh [1, 1, 1]) \<noteq> selfId 2"
    by (simp add: cell_defs Atomics_load_def fresh_def selfId_def)
  show ?thesis
    using unlock_rejects_non_owner [OF a] unlock_rejects_non_owner [OF b] by simp
qed

text \<open>
  Claim C4. \<^verbatim>\<open>unlock()\<close> called by the owner (flag \<open>1\<close>, owner the calling thread)
  decrements through the compare-and-swap loop of \<^verbatim>\<open>unlock_loop\<close>: a count of \<open>0\<close> or
  less throws \<^verbatim>\<open>MUTEX_RECURSION_COUNT_UNDERFLOW\<close> with the state untouched; any other
  count is lowered by exactly one, so the depth it leaves is never negative and never
  wrapped.
\<close>

theorem unlock_owner_decrement:
  assumes "b + 2 < length (memory w)"
    and "flag_of b w = 1" and "owner_of b w = selfId t"
  shows "(recursionCount_of b w \<le> 0 \<longrightarrow>
            unlock t b w = (Throw MUTEX_RECURSION_COUNT_UNDERFLOW, w)) \<and>
         (0 < recursionCount_of b w \<longrightarrow>
            fst (unlock t b w) = Return \<and>
            recursionCount_of b (snd (unlock t b w)) = recursionCount_of b w - 1 \<and>
            0 \<le> recursionCount_of b (snd (unlock t b w)))"
proof -
  have r: "- (2 ^ 31) \<le> recursionCount_of b w" "recursionCount_of b w < 2 ^ 31"
    using load_range [of w "countIndex b"] by (simp_all add: recursionCount_of_def)
  have ci: "countIndex b < length (memory w)" "countIndex b \<noteq> ownerIndex b"
    "countIndex b \<noteq> lockIndex b"
    using assms(1) by (simp_all add: cell_defs)
  have "recursionCount_of b (snd (unlock t b w)) = recursionCount_of b w - 1"
    if "1 < recursionCount_of b w"
    using that assms r ci
    by (simp add: unlock_cases) (simp add: recursionCount_of_def load_store_same)
  moreover have "recursionCount_of b (snd (unlock t b w)) = 0"
    if "recursionCount_of b w = 1"
    using that assms ci
    by (simp add: unlock_cases)
       (simp add: recursionCount_of_def load_notify load_store_other load_store_same length_store)
  moreover have "recursionCount_of b w = 1 \<or> 1 < recursionCount_of b w"
    if "0 < recursionCount_of b w"
    using that by auto
  ultimately show ?thesis
    using assms by (auto simp: unlock_cases)
qed

theorem unlock_owner_decrement_witness:
  "unlock 3 0 (fresh [1, 3, 0]) = (Throw MUTEX_RECURSION_COUNT_UNDERFLOW, fresh [1, 3, 0]) \<and>
   fst (unlock 3 0 (fresh [1, 3, 2])) = Return \<and>
   recursionCount_of 0 (snd (unlock 3 0 (fresh [1, 3, 2]))) = 1"
proof -
  have a: "0 + 2 < length (memory (fresh [1, 3, 0]))" "flag_of 0 (fresh [1, 3, 0]) = 1"
    "owner_of 0 (fresh [1, 3, 0]) = selfId 3" "recursionCount_of 0 (fresh [1, 3, 0]) = 0"
    by (simp_all add: eval_cells)
  have b: "0 + 2 < length (memory (fresh [1, 3, 2]))" "flag_of 0 (fresh [1, 3, 2]) = 1"
    "owner_of 0 (fresh [1, 3, 2]) = selfId 3" "recursionCount_of 0 (fresh [1, 3, 2]) = 2"
    by (simp_all add: eval_cells)
  show ?thesis
    using unlock_owner_decrement [OF a(1-3)] unlock_owner_decrement [OF b(1-3)] a(4) b(4)
    by simp
qed

text \<open>
  Claim C10. An \<^verbatim>\<open>unlock()\<close> that returns with a depth still above \<open>0\<close> writes the
  recursion count and nothing else: the flag, the owner and all other cells keep their
  values and no waiter is notified. An \<^verbatim>\<open>unlock()\<close> that returns with depth \<open>0\<close> clears
  the count, the owner and the flag, in this order, and then notifies the flag cell
  exactly once. An \<^verbatim>\<open>unlock()\<close> that throws changes nothing and notifies nobody.
\<close>

theorem unlock_frame_and_notify:
  assumes "b + 2 < length (memory w)"
  shows "(fst (unlock t b w) = Return \<and> 0 < recursionCount_of b (snd (unlock t b w)) \<longrightarrow>
            memory (snd (unlock t b w)) =
              (memory w)[countIndex b := word_of_int (recursionCount_of b w - 1)] \<and>
            events (snd (unlock t b w)) =
              events w @ [Write (countIndex b) (recursionCount_of b w - 1)]) \<and>
         (fst (unlock t b w) = Return \<and> \<not> 0 < recursionCount_of b (snd (unlock t b w)) \<longrightarrow>
            recursionCount_of b (snd (unlock t b w)) = 0 \<and>
            memory (snd (unlock t b w)) =
              (memory w)[countIndex b := 0, ownerIndex b := 0, lockIndex b := 0] \<and>
            events (snd (unlock t b w)) =
              events w @ [Write (countIndex b) 0, Write (countIndex b) 0,
                          Write (ownerIndex b) 0, Write (lockIndex b) 0,
                          Notify (lockIndex b) 1]) \<and>
         (fst (unlock t b w) \<noteq> Return \<longrightarrow> snd (unlock t b w) = w)"
proof -
  have r: "- (2 ^ 31) \<le> recursionCount_of b w" "recursionCount_of b w < 2 ^ 31"
    using load_range [of w "countIndex b"] by (simp_all add: recursionCount_of_def)
  have ci: "countIndex b < length (memory w)" "countIndex b \<noteq> ownerIndex b"
    "countIndex b \<noteq> lockIndex b"
    using assms(1) by (simp_all add: cell_defs)
  have deep: "recursionCount_of b (Atomics_store w (countIndex b) (recursionCount_of b w - 1))
      = recursionCount_of b w - 1" if "1 < recursionCount_of b w"
    using that r ci by (simp add: recursionCount_of_def load_store_same)
  have last: "recursionCount_of b
      (Atomics_notify
        (Atomics_store
          (Atomics_store
            (Atomics_store (Atomics_store w (countIndex b) 0) (countIndex b) 0)
            (ownerIndex b) 0)
          (lockIndex b) 0)
        (lockIndex b) 1) = 0"
    using ci
    by (simp add: recursionCount_of_def load_notify load_store_other load_store_same
        length_store)
  show ?thesis
    using deep last
    by (auto simp: unlock_cases)
       (simp_all add: Atomics_store_def Atomics_notify_def)
qed

theorem unlock_frame_and_notify_witness:
  "snd (unlock 3 0 (fresh [1, 3, 2])) =
     \<lparr>memory = [1, 3, 1], events = [Write 2 1], mainThreadWarningShown = False\<rparr> \<and>
   snd (unlock 3 0 (fresh [1, 3, 1])) =
     \<lparr>memory = [0, 0, 0],
      events = [Write 2 0, Write 2 0, Write 1 0, Write 0 0, Notify 0 1],
      mainThreadWarningShown = False\<rparr> \<and>
   snd (unlock 4 0 (fresh [1, 3, 1])) = fresh [1, 3, 1]"
proof -
  have a: "0 + 2 < length (memory (fresh [1, 3, 2]))"
    and b: "0 + 2 < length (memory (fresh [1, 3, 1]))"
    by (simp_all add: fresh_def)
  have ra: "fst (unlock 3 0 (fresh [1, 3, 2])) = Return"
    "recursionCount_of 0 (snd (unlock 3 0 (fresh [1, 3, 2]))) = 1"
    "recursionCount_of 0 (fresh [1, 3, 2]) = 2"
    by (simp_all add: unlock_cases eval_cells Atomics_store_def)
  have rb: "fst (unlock 3 0 (fresh [1, 3, 1])) = Return"
    "recursionCount_of 0 (snd (unlock 3 0 (fresh [1, 3, 1]))) = 0"
    by (simp_all add: unlock_cases eval_cells Atomics_store_def Atomics_notify_def)
  have rc: "fst (unlock 4 0 (fresh [1, 3, 1])) \<noteq> Return"
    by (simp add: unlock_cases eval_cells)
  have wa: "mainThreadWarningShown (snd (unlock 3 0 (fresh [1, 3, 2]))) = False"
    "mainThreadWarningShown (snd (unlock 3 0 (fresh [1, 3, 1]))) = False"
    by (simp_all add: unlock_cases eval_cells Atomics_store_def Atomics_notify_def)
  show ?thesis
    using unlock_frame_and_notify [OF a, of 3] unlock_frame_and_notify [OF b, of 3]
      unlock_frame_and_notify [OF b, of 4] ra rb rc wa
    by (simp add: cell_defs) (simp add: fresh_def world.equality)
qed

section \<open>Re-entrant acquisition\<close>

text \<open>
  Claim C5. When the calling thread already holds the mutex (flag \<open>1\<close>, owner the calling
  thread), \<^verbatim>\<open>lock()\<close> goes through \<^verbatim>\<open>incrementRecursionCount\<close>: a count of \<open>0\<close> or less
  throws \<^verbatim>\<open>MUTEX_RECURSION_COUNT_UNDERFLOW\<close>, a count of \<open>2^31 - 1\<close> or more throws
  \<^verbatim>\<open>MUTEX_RECURSION_COUNT_OVERFLOW\<close>, both without touching a cell; only otherwise is
  the count raised by one and the call returns.
\<close>

theorem lock_reentrant:
  assumes "b + 2 < length (memory w)"
    and "flag_of b w = 1" and "owner_of b w = selfId t"
  shows "(recursionCount_of b w \<le> 0 \<longrightarrow>
            fst (lock t b w) = Throw MUTEX_RECURSION_COUNT_UNDERFLOW \<and>
            memory (snd (lock t b w)) = memory w) \<and>
         (MAX_RECURSION_COUNT \<le> recursionCount_of b w \<longrightarrow>
            fst (lock t b w) = Throw MUTEX_RECURSION_COUNT_OVERFLOW \<and>
            memory (snd (lock t b w)) = memory w) \<and>
         (0 < recursionCount_of b w \<and> recursionCount_of b w < MAX_RECURSION_COUNT \<longrightarrow>
            fst (lock t b w) = Return \<and>
            memory (snd (lock t b w)) =
              (memory w)[countIndex b := word_of_int (recursionCount_of b w + 1)] \<and>
            recursionCount_of b (snd (lock t b w)) = recursionCount_of b w + 1)"
proof -
  have "recursionCount_of b (Atomics_store (warnOnMainThread t w) (countIndex b)
          (recursionCount_of b w + 1)) = recursionCount_of b w + 1"
    if "0 < recursionCount_of b w" "recursionCount_of b w < MAX_RECURSION_COUNT"
    using that assms(1)
    by (simp add: recursionCount_of_def load_store_same countIndex_def COUNT_OFFSET_def
        MAX_RECURSION_COUNT_def)
  then show ?thesis
    using assms by (auto simp: lock_cases Let_def Atomics_store_def MAX_RECURSION_COUNT_def)
qed

theorem lock_reentrant_witness:
  "fst (lock 3 0 (fresh [1, 3, 0])) = Throw MUTEX_RECURSION_COUNT_UNDERFLOW \<and>
   fst (lock 3 0 (fresh [1, 3, 2147483647])) = Throw MUTEX_RECURSION_COUNT_OVERFLOW \<and>
   memory (snd (lock 3 0 (fresh [1, 3, 2147483647]))) = [1, 3, 2147483647] \<and>
   fst (lock 3 0 (fresh [1, 3, 2])) = Return \<and>
   memory (snd (lock 3 0 (fresh [1, 3, 2]))) = [1, 3, 3]"
proof -
  have a: "0 + 2 < length (memory (fresh [1, 3, 0]))" "flag_of 0 (fresh [1, 3, 0]) = 1"
    "owner_of 0 (fresh [1, 3, 0]) = selfId 3" "recursionCount_of 0 (fresh [1, 3, 0]) = 0"
    by (simp_all add: eval_cells)
  have b: "0 + 2 < length (memory (fresh [1, 3, 2147483647]))"
    "flag_of 0 (fresh [1, 3, 2147483647]) = 1"
    "owner_of 0 (fresh [1, 3, 2147483647]) = selfId 3"
    "recursionCount_of 0 (fresh [1, 3, 2147483647]) = 2147483647"
    by (simp_all add: eval_cells)
  have c: "0 + 2 < length (memory (fresh [1, 3, 2]))" "flag_of 0 (fresh [1, 3, 2]) = 1"
    "owner_of 0 (fresh [1, 3, 2]) = selfId 3" "recursionCount_of 0 (fresh [1, 3, 2]) = 2"
    by (simp_all add: eval_cells)
  show ?thesis
    using lock_reentrant [OF a(1-3)] lock_reentrant [OF b(1-3)] lock_reentrant [OF c(1-3)]
      a(4) b(4) c(4)
    by (simp add: MAX_RECURSION_COUNT_def fresh_def countIndex_def COUNT_OFFSET_def)
qed

section \<open>The cells after a call\<close>

text \<open>
  What \<^verbatim>\<open>lock\<close>, \<^verbatim>\<open>lockAsync\<close> and \<^verbatim>\<open>unlock\<close> leave in the three cells, on an unlocked
  mutex and on one that a thread holds.
\<close>

lemma length_warn [simp]: "length (memory (warnOnMainThread t w)) = length (memory w)"
  by simp

lemma cells_warn [simp]:
  "flag_of b (warnOnMainThread t w) = flag_of b w"
  "owner_of b (warnOnMainThread t w) = owner_of b w"
  "recursionCount_of b (warnOnMainThread t w) = recursionCount_of b w"
  by (simp_all add: flag_of_def owner_of_def recursionCount_of_def)

lemma slot_warn [simp]: "slot b (warnOnMainThread t w) = slot b w"
  by (simp add: slot_def cell_defs)

lemma slot_acquire:
  assumes "b + 2 < length (memory w)" and "- (2 ^ 31) \<le> me" and "me < 2 ^ 31"
  shows "slot b (acquire me b w) = (1, me, 1)"
  using assms
  by (simp add: slot_def cell_defs acquire_def load_store_same load_store_other length_store)

lemma length_acquire [simp]: "length (memory (acquire me b w)) = length (memory w)"
  by (simp add: acquire_def length_store)

lemma slot_store_count:
  assumes "b + 2 < length (memory w)" and "- (2 ^ 31) \<le> v" and "v < 2 ^ 31"
  shows "slot b (Atomics_store w (countIndex b) v) = (flag_of b w, owner_of b w, v)"
  using assms
  by (simp add: slot_def cell_defs load_store_same load_store_other)

lemma slot_release:
  assumes "b + 2 < length (memory w)"
  shows "slot b
      (Atomics_notify
        (Atomics_store
          (Atomics_store
            (Atomics_store (Atomics_store w (countIndex b) 0) (countIndex b) 0)
            (ownerIndex b) 0)
          (lockIndex b) 0)
        (lockIndex b) 1) = (0, 0, 0)"
  using assms
  by (simp add: slot_def cell_defs load_notify load_store_same load_store_other length_store)

lemma length_release [simp]:
  "length (memory
      (Atomics_notify
        (Atomics_store
          (Atomics_store
            (Atomics_store (Atomics_store w ci 0) ci' 0)
            oi 0)
          fi 0)
        fi' 1)) = length (memory w)"
  by (simp add: Atomics_notify_def Atomics_store_def)

lemma lock_free:
  assumes "b + 2 < length (memory w)" and "t < 2 ^ 31" and "flag_of b w = 0"
  shows "fst (lock t b w) = Return" and "slot b (snd (lock t b w)) = (1, int t, 1)"
    and "length (memory (snd (lock t b w))) = length (memory w)"
  using assms by (simp_all add: lock_cases Let_def selfId_def slot_acquire)

lemma lockAsync_free:
  assumes "b + 2 < length (memory w)" and "t < 2 ^ 31" and "flag_of b w = 0"
  shows "fst (lockAsync h n t b w) = Return"
    and "slot b (snd (lockAsync h n t b w)) = (1, int t, 1)"
    and "length (memory (snd (lockAsync h n t b w))) = length (memory w)"
  using assms by (simp_all add: lockAsync_cases Let_def selfId_def slot_acquire)

lemma lock_held_same:
  assumes "b + 2 < length (memory w)" and "slot b w = (1, int t, c)"
    and "0 < c" and "c < MAX_RECURSION_COUNT"
  shows "fst (lock t b w) = Return" and "slot b (snd (lock t b w)) = (1, int t, c + 1)"
    and "length (memory (snd (lock t b w))) = length (memory w)"
  using assms
  by (simp_all add: lock_cases Let_def selfId_def slot_def slot_store_count [unfolded slot_def]
      MAX_RECURSION_COUNT_def length_store)


lemma lockAsync_held_same:
  assumes "b + 2 < length (memory w)" and "slot b w = (1, int t, c)"
    and "0 < c" and "c < MAX_RECURSION_COUNT"
  shows "fst (lockAsync h n t b w) = Return"
    and "slot b (snd (lockAsync h n t b w)) = (1, int t, c + 1)"
    and "length (memory (snd (lockAsync h n t b w))) = length (memory w)"
  using assms
  by (simp_all add: lockAsync_cases Let_def selfId_def slot_def
      slot_store_count [unfolded slot_def] MAX_RECURSION_COUNT_def length_store)

lemma lock_no_effect:
  assumes "slot b w = (1, int u, c)" and "0 < c" and "c \<le> MAX_RECURSION_COUNT"
    and "t \<noteq> u \<or> c = MAX_RECURSION_COUNT"
  shows "fst (lock t b w) \<noteq> Return" and "memory (snd (lock t b w)) = memory w"
  using assms by (auto simp: lock_cases Let_def selfId_def slot_def)

lemma lockAsync_no_effect:
  assumes "slot b w = (1, int u, c)" and "0 < c" and "c \<le> MAX_RECURSION_COUNT"
    and "t \<noteq> u \<or> c = MAX_RECURSION_COUNT"
  shows "fst (lockAsync h n t b w) \<noteq> Return"
    and "memory (snd (lockAsync h n t b w)) = memory w"
  using assms by (auto simp: lockAsync_cases Let_def selfId_def slot_def)

lemma unlock_no_effect:
  assumes "flag_of b w \<noteq> 1 \<or> owner_of b w \<noteq> int t"
  shows "fst (unlock t b w) \<noteq> Return" and "snd (unlock t b w) = w"
  using assms by (auto simp: unlock_cases selfId_def)

lemma unlock_held_deeper:
  assumes "b + 2 < length (memory w)" and "slot b w = (1, int t, c)" and "1 < c"
  shows "fst (unlock t b w) = Return" and "slot b (snd (unlock t b w)) = (1, int t, c - 1)"
    and "length (memory (snd (unlock t b w))) = length (memory w)"
proof -
  have "c < 2 ^ 31"
    using assms(2) load_range [of w "countIndex b"]
    by (simp add: slot_def recursionCount_of_def)
  then show "fst (unlock t b w) = Return"
    and "slot b (snd (unlock t b w)) = (1, int t, c - 1)"
    and "length (memory (snd (unlock t b w))) = length (memory w)"
    using assms
    by (simp_all add: unlock_cases selfId_def slot_def slot_store_count [unfolded slot_def]
        length_store)
qed

lemma unlock_held_last:
  assumes "b + 2 < length (memory w)" and "slot b w = (1, int t, 1)"
  shows "fst (unlock t b w) = Return" and "slot b (snd (unlock t b w)) = (0, 0, 0)"
    and "length (memory (snd (unlock t b w))) = length (memory w)"
  using assms
  by (simp_all add: unlock_cases selfId_def slot_def slot_release [unfolded slot_def])

section \<open>Nested holds of one thread\<close>

lemma repeat_lock_held:
  assumes "b + 2 < length (memory w)" and "t < 2 ^ 31" and "flag_of b w = 0"
    and "int (Suc n) \<le> MAX_RECURSION_COUNT"
  shows "fst (repeat_call (Suc n) (lock t b) w) = Return \<and>
         slot b (snd (repeat_call (Suc n) (lock t b) w)) = (1, int t, int (Suc n)) \<and>
         length (memory (snd (repeat_call (Suc n) (lock t b) w))) = length (memory w)"
  using assms(4)
proof (induction n)
  case 0
  show ?case
    using lock_free [OF assms(1-3)] by simp
next
  case (Suc n)
  then have ih: "fst (repeat_call (Suc n) (lock t b) w) = Return"
    "slot b (snd (repeat_call (Suc n) (lock t b) w)) = (1, int t, int (Suc n))"
    "length (memory (snd (repeat_call (Suc n) (lock t b) w))) = length (memory w)"
    by simp_all
  obtain w' where w': "repeat_call (Suc n) (lock t b) w = (Return, w')"
    using ih(1) by (cases "repeat_call (Suc n) (lock t b) w") simp
  have 1: "b + 2 < length (memory w')" and 2: "slot b w' = (1, int t, int (Suc n))"
    using ih w' assms(1) by simp_all
  have 3: "0 < int (Suc n)" and 4: "int (Suc n) < MAX_RECURSION_COUNT"
    using Suc.prems by simp_all
  have "repeat_call (Suc (Suc n)) (lock t b) w = lock t b w'"
    using w' by simp
  then show ?case
    using lock_held_same [OF 1 2 3 4] ih(3) w' by simp
qed

lemma repeat_unlock_held:
  assumes "b + 2 < length (memory w)" and "slot b w = (1, int t, int n)"
    and "0 < n" and "k \<le> n"
  shows "fst (repeat_call k (unlock t b) w) = Return \<and>
         slot b (snd (repeat_call k (unlock t b) w)) =
           (if k < n then (1, int t, int n - int k) else (0, 0, 0)) \<and>
         length (memory (snd (repeat_call k (unlock t b) w))) = length (memory w)"
  using assms(4)
proof (induction k)
  case 0
  show ?case using assms(2,3) by simp
next
  case (Suc k)
  then have ih: "fst (repeat_call k (unlock t b) w) = Return"
    "slot b (snd (repeat_call k (unlock t b) w)) = (1, int t, int n - int k)"
    "length (memory (snd (repeat_call k (unlock t b) w))) = length (memory w)"
    by simp_all
  obtain w' where w': "repeat_call k (unlock t b) w = (Return, w')"
    using ih(1) by (cases "repeat_call k (unlock t b) w") simp
  have 1: "b + 2 < length (memory w')" and 2: "slot b w' = (1, int t, int n - int k)"
    using ih w' assms(1) by simp_all
  have step: "repeat_call (Suc k) (unlock t b) w = unlock t b w'"
    using w' by simp
  show ?case
  proof (cases "Suc k < n")
    case True
    then have "1 < int n - int k" by simp
    from unlock_held_deeper [OF 1 2 this] show ?thesis
      using True step ih(3) w' by simp
  next
    case False
    then have "int n - int k = 1" using Suc.prems by simp
    with 2 have "slot b w' = (1, int t, 1)" by simp
    from unlock_held_last [OF 1 this] show ?thesis
      using False step ih(3) w' by simp
  qed
qed

text \<open>
  Claim C2, for the depths the counter admits. For every \<open>N\<close> from \<open>1\<close> to \<open>2^31 - 1\<close>, a
  thread whose identifier fits the owner cell and that calls \<^verbatim>\<open>lock()\<close> \<open>N\<close> times in a row
  on a freshly allocated block, with no \<^verbatim>\<open>unlock()\<close> in between, finds every call
  returning and leaves flag \<open>1\<close>, owner itself and recursion count \<open>N\<close>. Each of the next
  \<open>N\<close> calls of \<^verbatim>\<open>unlock()\<close> returns and lowers the count by exactly one: after \<open>k\<close> of
  them, \<open>k < N\<close>, the cells are flag \<open>1\<close>, owner the thread, count \<open>N - k\<close>, and after
  exactly \<open>N\<close> all three cells are \<open>0\<close>.
\<close>

theorem reentrant_lock_unlock:
  assumes "b + 2 < m" and "t < 2 ^ 31"
    and "1 \<le> N" and "int N \<le> MAX_RECURSION_COUNT" and "k \<le> N"
  shows "fst (repeat_call N (lock t b) (fresh (replicate m 0))) = Return \<and>
         flag_of b (snd (repeat_call N (lock t b) (fresh (replicate m 0)))) = 1 \<and>
         owner_of b (snd (repeat_call N (lock t b) (fresh (replicate m 0)))) = selfId t \<and>
         recursionCount_of b (snd (repeat_call N (lock t b) (fresh (replicate m 0)))) = int N \<and>
         fst (repeat_call k (unlock t b)
               (snd (repeat_call N (lock t b) (fresh (replicate m 0))))) = Return \<and>
         slot b (snd (repeat_call k (unlock t b)
               (snd (repeat_call N (lock t b) (fresh (replicate m 0)))))) =
           (if k < N then (1, selfId t, int N - int k) else (0, 0, 0))"
proof -
  obtain n where n: "N = Suc n"
    using assms(3) by (cases N) simp_all
  have 1: "b + 2 < length (memory (fresh (replicate m 0)))"
    and 2: "flag_of b (fresh (replicate m 0)) = 0"
    using assms(1)
    by (simp_all add: fresh_def flag_of_def Atomics_load_def lockIndex_def LOCK_OFFSET_def)
  have 3: "int (Suc n) \<le> MAX_RECURSION_COUNT"
    using assms(4) n by simp
  note locked = repeat_lock_held [OF 1 assms(2) 2 3]
  have 4: "b + 2 < length (memory (snd (repeat_call N (lock t b) (fresh (replicate m 0)))))"
    using locked 1 n by simp
  have 5: "slot b (snd (repeat_call N (lock t b) (fresh (replicate m 0)))) = (1, int t, int N)"
    using locked n by simp
  have 6: "0 < N" using assms(3) by simp
  note unlocked = repeat_unlock_held [OF 4 5 6 assms(5)]
  show ?thesis
    using locked unlocked n 5 by (simp add: slot_def selfId_def)
qed

theorem reentrant_lock_unlock_witness:
  "fst (repeat_call 2 (lock 1 0) (fresh (replicate 3 0))) = Return \<and>
   slot 0 (snd (repeat_call 2 (lock 1 0) (fresh (replicate 3 0)))) = (1, 1, 2) \<and>
   slot 0 (snd (repeat_call 1 (unlock 1 0)
     (snd (repeat_call 2 (lock 1 0) (fresh (replicate 3 0)))))) = (1, 1, 1) \<and>
   slot 0 (snd (repeat_call 2 (unlock 1 0)
     (snd (repeat_call 2 (lock 1 0) (fresh (replicate 3 0)))))) = (0, 0, 0)"
proof -
  have h: "(0::nat) + 2 < 3" "(1::nat) < 2 ^ 31" "(1::nat) \<le> 2"
    "int 2 \<le> MAX_RECURSION_COUNT" "(1::nat) \<le> 2" "(2::nat) \<le> 2"
    by (simp_all add: MAX_RECURSION_COUNT_def)
  show ?thesis
    using reentrant_lock_unlock [OF h(1) h(2) h(3) h(4) h(5)]
      reentrant_lock_unlock [OF h(1) h(2) h(3) h(4) h(6)]
    by (simp add: slot_def selfId_def)
qed

text \<open>
  The bound on \<open>N\<close> is needed: the call number \<open>2^31\<close> finds the count at
  \<^verbatim>\<open>MAX_RECURSION_COUNT\<close>, throws \<^verbatim>\<open>MUTEX_RECURSION_COUNT_OVERFLOW\<close> and leaves the count at
  \<open>2^31 - 1\<close>.
\<close>

theorem reentrant_lock_overflow:
  "fst (repeat_call 2147483648 (lock 1 0) (fresh (replicate 3 0))) =
     Throw MUTEX_RECURSION_COUNT_OVERFLOW \<and>
   recursionCount_of 0 (snd (repeat_call 2147483648 (lock 1 0) (fresh (replicate 3 0)))) =
     2147483647"
proof -
  have 1: "0 + 2 < length (memory (fresh (replicate 3 0)))"
    and 2: "flag_of 0 (fresh (replicate 3 0)) = 0"
    by (simp_all add: eval_cells)
  have 3: "int (Suc 2147483646) \<le> MAX_RECURSION_COUNT"
    by (simp add: MAX_RECURSION_COUNT_def)
  have 4: "(1::nat) < 2 ^ 31" by simp
  note locked = repeat_lock_held [OF 1 4 2 3]
  obtain w' where w': "repeat_call (Suc 2147483646) (lock 1 0) (fresh (replicate 3 0)) = (Return, w')"
    using locked by (cases "repeat_call (Suc 2147483646) (lock 1 0) (fresh (replicate 3 0))") simp
  have s: "slot 0 w' = (1, 1, 2147483647)"
    using locked w' by simp
  have "(2147483648::nat) = Suc (Suc 2147483646)" by simp
  then have "repeat_call 2147483648 (lock 1 0) (fresh (replicate 3 0)) = lock 1 0 w'"
    using w' by (simp only: repeat_call.simps) simp
  then show ?thesis
    using s by (simp add: lock_cases Let_def slot_def selfId_def MAX_RECURSION_COUNT_def)
qed

section \<open>Any schedule of calls\<close>

lemma consistent_free:
  "b + 2 < length (memory w) \<Longrightarrow> slot b w = (0, 0, 0) \<Longrightarrow> consistent b (w, \<lambda>t. 0)"
  by (simp add: consistent_def)

lemma consistent_held:
  "b + 2 < length (memory w) \<Longrightarrow> u < 2 ^ 31 \<Longrightarrow> 0 < c \<Longrightarrow> c \<le> MAX_RECURSION_COUNT \<Longrightarrow>
   slot b w = (1, int u, c) \<Longrightarrow> consistent b (w, (\<lambda>t. 0)(u := nat c))"
  by (auto simp: consistent_def)

lemma acquire_step:
  assumes "consistent b (w, held)" and "t < 2 ^ 31"
    and free: "flag_of b w = 0 \<Longrightarrow> r = Return \<and> slot b w' = (1, int t, 1) \<and>
      length (memory w') = length (memory w)"
    and same: "\<And>c. slot b w = (1, int t, c) \<Longrightarrow> 0 < c \<Longrightarrow> c < MAX_RECURSION_COUNT \<Longrightarrow>
      r = Return \<and> slot b w' = (1, int t, c + 1) \<and> length (memory w') = length (memory w)"
    and none: "\<And>u c. slot b w = (1, int u, c) \<Longrightarrow> 0 < c \<Longrightarrow> c \<le> MAX_RECURSION_COUNT \<Longrightarrow>
      t \<noteq> u \<or> c = MAX_RECURSION_COUNT \<Longrightarrow> r \<noteq> Return \<and> memory w' = memory w"
  shows "consistent b (w', if r = Return then held(t := held t + 1) else held)"
proof -
  have len: "b + 2 < length (memory w)"
    using assms(1) by (simp add: consistent_def)
  from assms(1) consider
    (unlocked) "slot b w = (0, 0, 0)" "held = (\<lambda>t. 0)"
    | (locked) u c where "u < 2 ^ 31" "0 < c" "c \<le> MAX_RECURSION_COUNT"
        "slot b w = (1, int u, c)" "held = (\<lambda>t. 0)(u := nat c)"
    by (auto simp: consistent_def)
  then show ?thesis
  proof cases
    case unlocked
    then have "flag_of b w = 0" by (simp add: slot_def)
    from free [OF this] have "r = Return" "slot b w' = (1, int t, 1)"
      "length (memory w') = length (memory w)" by simp_all
    then have "consistent b (w', (\<lambda>t. 0)(t := nat 1))"
      using len assms(2) by (intro consistent_held) (simp_all add: MAX_RECURSION_COUNT_def)
    then show ?thesis
      using unlocked \<open>r = Return\<close> by simp
  next
    case locked
    show ?thesis
    proof (cases "t = u \<and> c < MAX_RECURSION_COUNT")
      case True
      then have "slot b w = (1, int t, c)" using locked by simp
      from same [OF this locked(2)] True have "r = Return" "slot b w' = (1, int t, c + 1)"
        "length (memory w') = length (memory w)" by simp_all
      then have "consistent b (w', (\<lambda>t. 0)(t := nat (c + 1)))"
        using len assms(2) locked(2) True by (intro consistent_held) simp_all
      moreover have "held(t := held t + 1) = (\<lambda>t. 0)(t := nat (c + 1))"
        using locked True by (simp add: nat_add_distrib)
      ultimately show ?thesis
        using \<open>r = Return\<close> by simp
    next
      case False
      then have "t \<noteq> u \<or> c = MAX_RECURSION_COUNT"
        using locked(3) by auto
      from none [OF locked(4) locked(2) locked(3) this]
      have "r \<noteq> Return" "memory w' = memory w" by simp_all
      then have "slot b w' = slot b w" "length (memory w') = length (memory w)"
        by (simp_all add: slot_def cell_defs Atomics_load_def)
      then have "consistent b (w', held)"
        using assms(1) by (simp add: consistent_def)
      then show ?thesis
        using \<open>r \<noteq> Return\<close> by simp
    qed
  qed
qed

lemma perform_Lock:
  "perform b (w, held) (t, Lock) =
     (snd (lock t b w), if fst (lock t b w) = Return then held(t := held t + 1) else held)"
  by (cases "lock t b w") (simp add: perform_def)

lemma perform_LockAsync:
  "perform b (w, held) (t, LockAsync h n) =
     (snd (lockAsync h n t b w),
      if fst (lockAsync h n t b w) = Return then held(t := held t + 1) else held)"
  by (cases "lockAsync h n t b w") (simp add: perform_def)

lemma perform_Unlock:
  "perform b (w, held) (t, Unlock) =
     (snd (unlock t b w), if fst (unlock t b w) = Return then held(t := held t - 1) else held)"
  by (cases "unlock t b w") (simp add: perform_def)

lemma lock_consistent:
  assumes "consistent b (w, held)" and "t < 2 ^ 31"
  shows "consistent b (perform b (w, held) (t, Lock))"
proof -
  have len: "b + 2 < length (memory w)"
    using assms(1) by (simp add: consistent_def)
  have "consistent b (snd (lock t b w),
      if fst (lock t b w) = Return then held(t := held t + 1) else held)"
    using assms
  proof (rule acquire_step)
    show "flag_of b w = 0 \<Longrightarrow> fst (lock t b w) = Return \<and>
        slot b (snd (lock t b w)) = (1, int t, 1) \<and>
        length (memory (snd (lock t b w))) = length (memory w)"
      using lock_free [OF len assms(2)] by simp
    show "\<And>c. slot b w = (1, int t, c) \<Longrightarrow> 0 < c \<Longrightarrow> c < MAX_RECURSION_COUNT \<Longrightarrow>
        fst (lock t b w) = Return \<and> slot b (snd (lock t b w)) = (1, int t, c + 1) \<and>
        length (memory (snd (lock t b w))) = length (memory w)"
      using lock_held_same [OF len] by simp
    show "\<And>u c. slot b w = (1, int u, c) \<Longrightarrow> 0 < c \<Longrightarrow> c \<le> MAX_RECURSION_COUNT \<Longrightarrow>
        t \<noteq> u \<or> c = MAX_RECURSION_COUNT \<Longrightarrow>
        fst (lock t b w) \<noteq> Return \<and> memory (snd (lock t b w)) = memory w"
      using lock_no_effect by simp
  qed
  then show ?thesis
    by (simp only: perform_Lock)
qed

lemma lockAsync_consistent:
  assumes "consistent b (w, held)" and "t < 2 ^ 31"
  shows "consistent b (perform b (w, held) (t, LockAsync h n))"
proof -
  have len: "b + 2 < length (memory w)"
    using assms(1) by (simp add: consistent_def)
  have "consistent b (snd (lockAsync h n t b w),
      if fst (lockAsync h n t b w) = Return then held(t := held t + 1) else held)"
    using assms
  proof (rule acquire_step)
    show "flag_of b w = 0 \<Longrightarrow> fst (lockAsync h n t b w) = Return \<and>
        slot b (snd (lockAsync h n t b w)) = (1, int t, 1) \<and>
        length (memory (snd (lockAsync h n t b w))) = length (memory w)"
      using lockAsync_free [OF len assms(2)] by simp
    show "\<And>c. slot b w = (1, int t, c) \<Longrightarrow> 0 < c \<Longrightarrow> c < MAX_RECURSION_COUNT \<Longrightarrow>
        fst (lockAsync h n t b w) = Return \<and>
        slot b (snd (lockAsync h n t b w)) = (1, int t, c + 1) \<and>
        length (memory (snd (lockAsync h n t b w))) = length (memory w)"
      using lockAsync_held_same [OF len] by simp
    show "\<And>u c. slot b w = (1, int u, c) \<Longrightarrow> 0 < c \<Longrightarrow> c \<le> MAX_RECURSION_COUNT \<Longrightarrow>
        t \<noteq> u \<or> c = MAX_RECURSION_COUNT \<Longrightarrow>
        fst (lockAsync h n t b w) \<noteq> Return \<and> memory (snd (lockAsync h n t b w)) = memory w"
      using lockAsync_no_effect by simp
  qed
  then show ?thesis
    by (simp only: perform_LockAsync)
qed

lemma unlock_consistent:
  assumes "consistent b (w, held)" and "t < 2 ^ 31"
  shows "consistent b (perform b (w, held) (t, Unlock))"
proof -
  have len: "b + 2 < length (memory w)"
    using assms(1) by (simp add: consistent_def)
  note p = perform_Unlock [of b w held t]
  from assms(1) consider
    (unlocked) "slot b w = (0, 0, 0)" "held = (\<lambda>t. 0)"
    | (locked) u c where "u < 2 ^ 31" "0 < c" "c \<le> MAX_RECURSION_COUNT"
        "slot b w = (1, int u, c)" "held = (\<lambda>t. 0)(u := nat c)"
    by (auto simp: consistent_def)
  then show ?thesis
  proof cases
    case unlocked
    then have "flag_of b w \<noteq> 1 \<or> owner_of b w \<noteq> int t" by (simp add: slot_def)
    from unlock_no_effect [OF this] show ?thesis
      using assms(1) p by simp
  next
    case locked
    show ?thesis
    proof (cases "t = u")
      case False
      then have "flag_of b w \<noteq> 1 \<or> owner_of b w \<noteq> int t"
        using locked by (simp add: slot_def)
      from unlock_no_effect [OF this] show ?thesis
        using assms(1) p by simp
    next
      case True
      then have s: "slot b w = (1, int t, c)" using locked by simp
      show ?thesis
      proof (cases "1 < c")
        case True
        from unlock_held_deeper [OF len s True]
        have r: "fst (unlock t b w) = Return" "slot b (snd (unlock t b w)) = (1, int t, c - 1)"
          "length (memory (snd (unlock t b w))) = length (memory w)" by simp_all
        have "consistent b (snd (unlock t b w), (\<lambda>t. 0)(t := nat (c - 1)))"
          using r len assms(2) True locked(3) by (intro consistent_held) simp_all
        moreover have "held(t := held t - 1) = (\<lambda>t. 0)(t := nat (c - 1))"
          using locked \<open>t = u\<close> True by (simp add: nat_diff_distrib)
        ultimately show ?thesis
          using p r by simp
      next
        case False
        then have "c = 1" using locked(2) by simp
        from unlock_held_last [OF len s [unfolded this]]
        have r: "fst (unlock t b w) = Return" "slot b (snd (unlock t b w)) = (0, 0, 0)"
          "length (memory (snd (unlock t b w))) = length (memory w)" by simp_all
        have "consistent b (snd (unlock t b w), \<lambda>t. 0)"
          using r len by (intro consistent_free) simp_all
        moreover have "held(t := held t - 1) = (\<lambda>t. 0)"
          using locked \<open>t = u\<close> \<open>c = 1\<close> by auto
        ultimately show ?thesis
          using p r by simp
      qed
    qed
  qed
qed

lemma perform_consistent:
  assumes "consistent b s" and "fst tc < 2 ^ 31"
  shows "consistent b (perform b s tc)"
proof -
  obtain w held where s: "s = (w, held)" by (cases s)
  obtain t c where tc: "tc = (t, c)" by (cases tc)
  have "consistent b (w, held)" and "t < 2 ^ 31"
    using assms by (simp_all add: s tc)
  then show ?thesis
    unfolding s tc
  proof (cases c)
    case Lock
    assume "consistent b (w, held)" and "t < 2 ^ 31"
    then show "consistent b (perform b (w, held) (t, c))"
      unfolding Lock by (rule lock_consistent)
  next
    case (LockAsync h n)
    assume "consistent b (w, held)" and "t < 2 ^ 31"
    then show "consistent b (perform b (w, held) (t, c))"
      unfolding LockAsync by (rule lockAsync_consistent)
  next
    case Unlock
    assume "consistent b (w, held)" and "t < 2 ^ 31"
    then show "consistent b (perform b (w, held) (t, c))"
      unfolding Unlock by (rule unlock_consistent)
  qed
qed

lemma run_consistent:
  assumes "consistent b s" and "\<forall>tc \<in> set schedule. fst tc < 2 ^ 31"
  shows "consistent b (foldl (perform b) s schedule)"
  using assms
proof (induction schedule arbitrary: s)
  case Nil
  then show ?case by simp
next
  case (Cons tc schedule)
  then show ?case
    by (simp add: perform_consistent)
qed

lemma consistent_fresh:
  assumes "b + 2 < m"
  shows "consistent b (fresh (replicate m 0), \<lambda>t. 0)"
  using assms
  by (intro consistent_free) (simp_all add: slot_def eval_cells)



section \<open>Inside a call of another thread\<close>

text \<open>
  The lemmas above run whole calls one after the other. A first \<^verbatim>\<open>lock()\<close> is three
  atomic writes: the exchange on the flag, then the stores of owner and count. In the
  state between the exchange and the first store the cells are flag \<open>1\<close>, owner \<open>0\<close>,
  count \<open>0\<close>, and \<open>0\<close> is what \<^verbatim>\<open>selfId\<close> gives the main thread. A \<^verbatim>\<open>lock()\<close> or an
  \<^verbatim>\<open>unlock()\<close> of the main thread that runs in that state takes the owner's path and
  throws \<^verbatim>\<open>MUTEX_RECURSION_COUNT_UNDERFLOW\<close>; an \<^verbatim>\<open>incrementRecursionCount\<close> that
  starts after the two stores returns with the count at \<open>2\<close>. No theorem of this theory
  speaks about such overlaps.
\<close>

lemma acquisition_window:
  fixes w0 w1 w2 :: world
  defines "w0 \<equiv> fresh [0, 0, 0]"
    and "w1 \<equiv> snd (Atomics_compareExchange w0 (lockIndex 0) 0 1)"
    and "w2 \<equiv> Atomics_store (Atomics_store w1 (ownerIndex 0) (selfId 1)) (countIndex 0) 1"
  shows "lock 1 0 w0 = (Return, w2)"
    and "slot 0 w1 = (1, selfId 0, 0)"
    and "fst (lock 0 0 w1) = Throw MUTEX_RECURSION_COUNT_UNDERFLOW"
    and "fst (unlock 0 0 w1) = Throw MUTEX_RECURSION_COUNT_UNDERFLOW"
    and "fst (incrementRecursionCount (countIndex 0) w2) = Return"
    and "slot 0 (snd (incrementRecursionCount (countIndex 0) w2)) = (1, selfId 1, 2)"
  unfolding w0_def w1_def w2_def
  by (simp_all add: lock_cases unlock_cases Let_def slot_def eval_cells acquire_def
      Atomics_compareExchange_def Atomics_store_def warnOnMainThread_def
      incrementRecursionCount_ok MAX_RECURSION_COUNT_def)

section \<open>Allocation and construction\<close>

lemma MAX_MUTEX_COUNT_value: "MAX_MUTEX_COUNT = 750599937895082"
  by (simp add: MAX_MUTEX_COUNT_def MAX_SAFE_INTEGER_def BYTES_PER_MUTEX_def
      BYTES_PER_ELEMENT_def STRIDE_def)

lemma replicate_4_more: "replicate (4 + k) x = x # x # x # x # replicate k x"
  by (simp add: eval_nat_numeral)

lemma Int32Array_zero: "Int32Array (replicate (n * 4) 0) = replicate n 0"
  by (induction n) (simp_all add: replicate_4_more word_rcat_def)

lemma length_Int32Array: "length (Int32Array bs) = length bs div 4"
  by (induction bs rule: Int32Array.induct) simp_all

lemma isSafeInteger_Num: "isSafeInteger c \<Longrightarrow> c = Num (toInteger c)"
  by (cases c) (auto simp: Num_def)

lemma js_le_Num [simp]: "js_le (Num a) (Num b) \<longleftrightarrow> a \<le> b"
  by (simp add: Num_def)

lemma js_lt_Num [simp]: "js_lt (Num a) (Num b) \<longleftrightarrow> a < b"
  by (simp add: Num_def)

lemma toInteger_Num [simp]: "toInteger (Num a) = a"
  by (simp add: Num_def)

lemma isSafeInteger_Num_iff [simp]: "isSafeInteger (Num a) \<longleftrightarrow> \<bar>a\<bar> \<le> MAX_SAFE_INTEGER"
proof -
  have "\<bar>real_of_int a\<bar> \<le> real_of_int MAX_SAFE_INTEGER \<longleftrightarrow> \<bar>a\<bar> \<le> MAX_SAFE_INTEGER"
    by linarith
  then show ?thesis by (simp add: Num_def)
qed

lemma createSharedBuffer_cases:
  "createSharedBuffer (Some count) =
     (if \<not> (isSafeInteger count \<and> js_lt (Num 0) count)
      then Inl COUNT_MUST_BE_A_POSITIVE_SAFE_INTEGER
      else if js_gt count (Num MAX_MUTEX_COUNT) then Inl COUNT_EXCEEDS_MAX_SUPPORTED_VALUE
      else Inr (SharedArrayBuffer (replicate (nat (toInteger count) * 3 * 4) 0)))"
proof (cases "isSafeInteger count")
  case False
  then show ?thesis by (simp add: createSharedBuffer_def)
next
  case True
  then obtain n where n: "count = Num n"
    using isSafeInteger_Num by blast
  have "nat (12 * n) = nat n * 3 * 4" by simp
  then show ?thesis
    using True
    by (auto simp: n createSharedBuffer_def js_gt_def new_SharedArrayBuffer_def
        BYTES_PER_MUTEX_def BYTES_PER_ELEMENT_def STRIDE_def)
qed






lemma constructor_cases:
  "WorkerMutex_constructor \<lparr>handle = h, index = Some idx\<rparr> =
     (if \<not> (isSafeInteger idx \<and> js_le (Num 0) idx) then Inl VALUE_MUST_BE_AN_UNSIGNED_INTEGER
      else case h of
        ArrayBuffer bs \<Rightarrow> Inl HANDLE_MUST_BE_A_SHARED_ARRAY_BUFFER
      | SharedArrayBuffer bs \<Rightarrow>
          if length bs mod 4 \<noteq> 0 then Inl HANDLE_BYTE_LENGTH_IS_NOT_INT32_ALIGNED
          else if \<not> nat (toInteger idx) * 3 + 2 < length bs div 4
          then Inl MUTEX_INDEX_OUT_OF_RANGE
          else Inr \<lparr>i32 = Int32Array bs, base = nat (toInteger idx) * 3\<rparr>)"
proof (cases "isSafeInteger idx")
  case False
  then show ?thesis
    by (simp add: WorkerMutex_constructor_def assertUnsignedInteger_def)
next
  case True
  then obtain n where n: "idx = Num n"
    using isSafeInteger_Num by blast
  have "int (length bs) mod 4 = 0 \<longleftrightarrow> length bs mod 4 = 0" for bs :: "8 word list"
    by presburger
  moreover have "nat (n * 3) = nat n * 3" by simp
  moreover have "int (length bs div 4) \<le> n * 3 + 2 \<longleftrightarrow> \<not> nat n * 3 + 2 < length bs div 4"
    if "0 \<le> n" for bs :: "8 word list"
    using that by linarith
  ultimately show ?thesis
    using True
    by (auto simp: n WorkerMutex_constructor_def assertUnsignedInteger_def Let_def
        BYTES_PER_ELEMENT_def STRIDE_def length_Int32Array split: buffer.split)
qed

text \<open>
  Claim C8. The constructor validates in this order: an index that is not a non-negative
  safe integer gives \<^verbatim>\<open>VALUE_MUST_BE_AN_UNSIGNED_INTEGER\<close>; then a handle that is not a
  \<^verbatim>\<open>SharedArrayBuffer\<close> gives \<^verbatim>\<open>HANDLE_MUST_BE_A_SHARED_ARRAY_BUFFER\<close>; then a byte length
  that is not a multiple of \<open>4\<close> gives \<^verbatim>\<open>HANDLE_BYTE_LENGTH_IS_NOT_INT32_ALIGNED\<close>; then
  an index whose \<open>base + 2\<close> is not a cell of the view gives \<^verbatim>\<open>MUTEX_INDEX_OUT_OF_RANGE\<close>.
  Each failure is the whole result, so no mutex object comes out of it; only when all
  four checks pass is the object built. An omitted index stands for \<open>0\<close>.
\<close>

theorem constructor_validation:
  "(\<not> (isSafeInteger idx \<and> js_le (Num 0) idx) \<longrightarrow>
      WorkerMutex_constructor \<lparr>handle = h, index = Some idx\<rparr> =
        Inl VALUE_MUST_BE_AN_UNSIGNED_INTEGER) \<and>
   (isSafeInteger idx \<and> js_le (Num 0) idx \<and> h = ArrayBuffer bs \<longrightarrow>
      WorkerMutex_constructor \<lparr>handle = h, index = Some idx\<rparr> =
        Inl HANDLE_MUST_BE_A_SHARED_ARRAY_BUFFER) \<and>
   (isSafeInteger idx \<and> js_le (Num 0) idx \<and> h = SharedArrayBuffer bs \<and>
    byteLength h mod 4 \<noteq> 0 \<longrightarrow>
      WorkerMutex_constructor \<lparr>handle = h, index = Some idx\<rparr> =
        Inl HANDLE_BYTE_LENGTH_IS_NOT_INT32_ALIGNED) \<and>
   (isSafeInteger idx \<and> js_le (Num 0) idx \<and> h = SharedArrayBuffer bs \<and>
    byteLength h mod 4 = 0 \<and> \<not> nat (toInteger idx) * 3 + 2 < length (Int32Array bs) \<longrightarrow>
      WorkerMutex_constructor \<lparr>handle = h, index = Some idx\<rparr> =
        Inl MUTEX_INDEX_OUT_OF_RANGE) \<and>
   (isSafeInteger idx \<and> js_le (Num 0) idx \<and> h = SharedArrayBuffer bs \<and>
    byteLength h mod 4 = 0 \<and> nat (toInteger idx) * 3 + 2 < length (Int32Array bs) \<longrightarrow>
      WorkerMutex_constructor \<lparr>handle = h, index = Some idx\<rparr> =
        Inr \<lparr>i32 = Int32Array bs, base = nat (toInteger idx) * 3\<rparr>) \<and>
   WorkerMutex_constructor \<lparr>handle = h, index = None\<rparr> =
     WorkerMutex_constructor \<lparr>handle = h, index = Some (Num 0)\<rparr>"
proof -
  have default: "WorkerMutex_constructor \<lparr>handle = h, index = None\<rparr> =
      WorkerMutex_constructor \<lparr>handle = h, index = Some (Num 0)\<rparr>"
    by (simp add: WorkerMutex_constructor_def)
  show ?thesis
    unfolding default by (auto simp: constructor_cases length_Int32Array)
qed

theorem constructor_validation_witness:
  "WorkerMutex_constructor \<lparr>handle = SharedArrayBuffer (replicate 12 0),
      index = Some (Finite (15 / 10))\<rparr> = Inl VALUE_MUST_BE_AN_UNSIGNED_INTEGER \<and>
   WorkerMutex_constructor \<lparr>handle = ArrayBuffer (replicate 8 0), index = Some (Num 0)\<rparr> =
     Inl HANDLE_MUST_BE_A_SHARED_ARRAY_BUFFER \<and>
   WorkerMutex_constructor \<lparr>handle = SharedArrayBuffer (replicate 10 0), index = Some (Num 0)\<rparr> =
     Inl HANDLE_BYTE_LENGTH_IS_NOT_INT32_ALIGNED \<and>
   WorkerMutex_constructor \<lparr>handle = SharedArrayBuffer (replicate 12 0), index = Some (Num 2)\<rparr> =
     Inl MUTEX_INDEX_OUT_OF_RANGE \<and>
   WorkerMutex_constructor \<lparr>handle = SharedArrayBuffer (replicate (9 * 4) 0),
      index = Some (Num 1)\<rparr> = Inr \<lparr>i32 = replicate 9 0, base = 3\<rparr>"
  using constructor_validation
      [of "Finite (15 / 10)" "SharedArrayBuffer (replicate 12 0)" "replicate 12 0"]
    constructor_validation [of "Num 0" "ArrayBuffer (replicate 8 0)" "replicate 8 0"]
    constructor_validation [of "Num 0" "SharedArrayBuffer (replicate 10 0)" "replicate 10 0"]
    constructor_validation [of "Num 2" "SharedArrayBuffer (replicate 12 0)" "replicate 12 0"]
    constructor_validation
      [of "Num 1" "SharedArrayBuffer (replicate (9 * 4) 0)" "replicate (9 * 4) 0"]
    Int32Array_zero [of 9]
  by (simp add: MAX_SAFE_INTEGER_def length_Int32Array)

section \<open>The thread identifier of the two-cell mutex\<close>

lemma js_bitor_zero: "0 \<le> x \<Longrightarrow> x < 2 ^ 31 \<Longrightarrow> js_bitor x 0 = x"
  by (simp add: js_bitor_def sint_word_of_int_32)

lemma selfId2_value: "threadId < 2147483647 \<Longrightarrow> selfId2 threadId = int threadId + 1"
  by (simp add: selfId2_def js_bitor_zero)

lemmas cell2_defs = ownerIndex2_def countIndex2_def OWNER_OFFSET2_def COUNT_OFFSET2_def

lemma lock2_loop_free:
  assumes "Atomics_load w oi = 0" and "me \<noteq> 0"
  shows "lock2_loop me oi ci w = (Return, Atomics_store (Atomics_store w oi me) ci 1)"
  using assms
  by (subst lock2_loop.simps)
     (simp add: Atomics_compareExchange_def Atomics_load_def sint_eq_0_iff)

lemma lockAsync2_free:
  assumes "Atomics_load w (ownerIndex2 b) = 0" and "selfId2 t \<noteq> 0"
  shows "lockAsync2 h n t b w =
     (Return, Atomics_store (Atomics_store w (ownerIndex2 b) (selfId2 t)) (countIndex2 b) 1)"
  using assms
  by (simp add: lockAsync2_def Let_def Atomics_compareExchange_def Atomics_load_def
      sint_eq_0_iff)

lemma unlock2_last:
  assumes "Atomics_load w (ownerIndex2 b) = selfId2 t" and "Atomics_load w (countIndex2 b) = 1"
  shows "unlock2 t b w =
     (Return,
      Atomics_notify
        (Atomics_store
          (Atomics_store (Atomics_store w (countIndex2 b) 0) (countIndex2 b) 0)
          (ownerIndex2 b) 0)
        (ownerIndex2 b) 1)"
  using assms
  by (simp add: unlock2_def Let_def Atomics_sub_def Atomics_load_def sint_eq_1_iff)

text \<open>
  Claim C9, on the class of \<^verbatim>\<open>src/src/WorkerMutex.ts\<close>. For every thread whose
  \<^verbatim>\<open>threadId\<close> is below \<open>2^31 - 1\<close>, the main thread with \<^verbatim>\<open>threadId\<close> \<open>0\<close> among them,
  the identifier \<^verbatim>\<open>(threadId | 0) + 1\<close> is \<^verbatim>\<open>threadId + 1\<close> and strictly positive. On a
  mutex whose owner cell is \<open>0\<close> the test \<^verbatim>\<open>owner === me\<close> of the fast path fails;
  \<^verbatim>\<open>lock()\<close> and \<^verbatim>\<open>lockAsync()\<close> take the mutex, store this identifier into the owner
  cell, where it reads back unchanged and so differs from \<open>0\<close>, and set the count to \<open>1\<close>
  whatever it was; the \<^verbatim>\<open>unlock()\<close> that follows puts the owner cell back to \<open>0\<close>.
\<close>

theorem selfId2_marks_owner:
  assumes "threadId < 2147483647" and "b + 1 < length (memory w)"
    and "Atomics_load w (ownerIndex2 b) = 0"
  shows "selfId2 threadId = int threadId + 1 \<and> 0 < selfId2 threadId \<and>
         Atomics_load w (ownerIndex2 b) \<noteq> selfId2 threadId \<and>
         fst (lock2 threadId b w) = Return \<and>
         Atomics_load (snd (lock2 threadId b w)) (ownerIndex2 b) = selfId2 threadId \<and>
         Atomics_load (snd (lock2 threadId b w)) (countIndex2 b) = 1 \<and>
         fst (lockAsync2 h n threadId b w) = Return \<and>
         Atomics_load (snd (lockAsync2 h n threadId b w)) (ownerIndex2 b) = selfId2 threadId \<and>
         Atomics_load (snd (lockAsync2 h n threadId b w)) (countIndex2 b) = 1 \<and>
         fst (unlock2 threadId b (snd (lock2 threadId b w))) = Return \<and>
         Atomics_load (snd (unlock2 threadId b (snd (lock2 threadId b w)))) (ownerIndex2 b) = 0"
proof -
  have me: "selfId2 threadId = int threadId + 1"
    using assms(1) by (rule selfId2_value)
  then have pos: "0 < selfId2 threadId" "selfId2 threadId < 2 ^ 31" "selfId2 threadId \<noteq> 0"
    using assms(1) by simp_all
  have idx: "ownerIndex2 b < length (memory w)" "countIndex2 b < length (memory w)"
    "ownerIndex2 b \<noteq> countIndex2 b"
    using assms(2) by (simp_all add: cell2_defs)
  let ?w' = "Atomics_store (Atomics_store w (ownerIndex2 b) (selfId2 threadId)) (countIndex2 b) 1"
  have l: "lock2 threadId b w = (Return, ?w')"
    using assms(3) pos(3) by (simp add: lock2_def Let_def lock2_loop_free)
  have la: "lockAsync2 h n threadId b w = (Return, ?w')"
    using assms(3) pos(3) by (rule lockAsync2_free)
  have o: "Atomics_load ?w' (ownerIndex2 b) = selfId2 threadId"
    using idx pos by (simp add: load_store_other load_store_same)
  have c: "Atomics_load ?w' (countIndex2 b) = 1"
    using idx by (simp add: load_store_same length_store)
  have u: "fst (unlock2 threadId b ?w') = Return"
    "Atomics_load (snd (unlock2 threadId b ?w')) (ownerIndex2 b) = 0"
    using idx
    by (simp_all add: unlock2_last [OF o c] load_notify load_store_same length_store)
  show ?thesis
    using me pos(1,3) assms(3) l la o c u by simp
qed

theorem selfId2_marks_owner_witness:
  "selfId2 0 = 1 \<and>
   lock2 0 0 (fresh [0, 7]) =
     (Return, \<lparr>memory = [1, 1], events = [Write 0 1, Write 1 1], mainThreadWarningShown = False\<rparr>)
   \<and> Atomics_load (snd (lockAsync2 False 2 5 0 (fresh [0, 0]))) 0 = 6"
proof -
  have a: "(0::nat) < 2147483647" "0 + 1 < length (memory (fresh [0, 7]))"
    "Atomics_load (fresh [0, 7]) (ownerIndex2 0) = 0"
    by (simp_all add: fresh_def Atomics_load_def cell2_defs)
  have b: "(5::nat) < 2147483647" "0 + 1 < length (memory (fresh [0, 0]))"
    "Atomics_load (fresh [0, 0]) (ownerIndex2 0) = 0"
    by (simp_all add: fresh_def Atomics_load_def cell2_defs)
  have l: "snd (lock2 0 0 (fresh [0, 7])) =
      Atomics_store (Atomics_store (fresh [0, 7]) (ownerIndex2 0) (selfId2 0)) (countIndex2 0) 1"
    using a(3) selfId2_marks_owner [OF a, of False 0]
    by (simp add: lock2_def Let_def lock2_loop_free)
  show ?thesis
    using selfId2_marks_owner [OF a, of False 0] selfId2_marks_owner [OF b, of False 2] l
    by (simp add: prod_eq_iff cell2_defs fresh_def Atomics_store_def)
qed

end
